theory Spec2Isabelle
  imports Main "HOL-Library.AList"
begin

section \<open>Bytes, regular expressions and number conversions\<close>

text \<open>
  Python \<open>bytes\<close> are modelled as \<open>string\<close> (a list of 8-bit characters). Text
  (\<open>str\<close>) values are represented by their UTF-8 encoding, so a \<open>str\<close> and a
  \<open>bytes\<close> value are kept apart by a constructor, not by the character type.

  The module-level regular expressions are all single character classes; each is
  modelled by the predicate of its class, \<open>search\<close> is \<open>pattern.search(s, i)\<close>
  (the index of the first match at or after \<open>i\<close>) and \<open>re_match\<close> is
  \<open>pattern.match(c)\<close>.
\<close>

definition isdigit :: "char \<Rightarrow> bool" where
  "isdigit c = (c \<in> set ''0123456789'')"

definition isalpha :: "char \<Rightarrow> bool" where
  "isalpha c = (c \<in> set ''abcdefghijklmnopqrstuvwxyzABCDEFGHIJKLMNOPQRSTUVWXYZ'')"

definition bytes_isdigit :: "string \<Rightarrow> bool" where
  "bytes_isdigit b = (b \<noteq> [] \<and> list_all isdigit b)"

definition bytes_isalpha :: "string \<Rightarrow> bool" where
  "bytes_isalpha b = (b \<noteq> [] \<and> list_all isalpha b)"

definition EOL :: "char \<Rightarrow> bool" where
  "EOL c = (c = CHR 0x0D \<or> c = CHR 0x0A)"

definition SPC :: "char \<Rightarrow> bool" where
  "SPC c = (c \<in> set [CHR '' '', CHR 0x09, CHR 0x0A, CHR 0x0B, CHR 0x0C, CHR 0x0D])"

definition NONSPC :: "char \<Rightarrow> bool" where
  "NONSPC c = (\<not> SPC c)"

definition HEX :: "char \<Rightarrow> bool" where
  "HEX c = (c \<in> set ''0123456789abcdefABCDEF'')"

definition END_LITERAL :: "char \<Rightarrow> bool" where
  "END_LITERAL c = (c \<in> set ''#/%[]()<>{}'' \<or> SPC c)"

definition END_HEX_STRING :: "char \<Rightarrow> bool" where
  "END_HEX_STRING c = (\<not> (SPC c \<or> HEX c))"

definition END_NUMBER :: "char \<Rightarrow> bool" where
  "END_NUMBER c = (\<not> isdigit c)"

definition END_KEYWORD :: "char \<Rightarrow> bool" where
  "END_KEYWORD c = (c \<in> set ''#/%[]()<>{}'' \<or> SPC c)"

definition END_STRING :: "char \<Rightarrow> bool" where
  "END_STRING c = (c \<in> set [CHR ''('', CHR '')'', CHR 0x5C])"

definition OCT_STRING :: "char \<Rightarrow> bool" where
  "OCT_STRING c = (c \<in> set ''01234567'')"

definition ESC_STRING :: "(string \<times> nat) list" where
  "ESC_STRING =
     [(''b'', 8), (''t'', 9), (''n'', 10), (''f'', 12), (''r'', 13),
      (''('', 40), ('')'', 41), ([CHR 0x5C], 92)]"

definition search :: "(char \<Rightarrow> bool) \<Rightarrow> string \<Rightarrow> nat \<Rightarrow> nat option" where
  "search P s i =
     (if list_ex P (drop i s)
      then Some (i + length (takeWhile (\<lambda>c. \<not> P c) (drop i s)))
      else None)"

definition re_match :: "(char \<Rightarrow> bool) \<Rightarrow> string \<Rightarrow> bool" where
  "re_match P c = (case c of [] \<Rightarrow> False | x # _ \<Rightarrow> P x)"

text \<open>\<open>s[i:j]\<close> for \<open>i \<le> j\<close>, and \<open>s[i:i+1]\<close>.\<close>

definition slice :: "string \<Rightarrow> nat \<Rightarrow> nat \<Rightarrow> string" where
  "slice s i j = take (j - i) (drop i s)"

definition byte_at :: "string \<Rightarrow> nat \<Rightarrow> string" where
  "byte_at s i = take 1 (drop i s)"

text \<open>
  \<open>int(b, base)\<close> on an accumulator of digits. \<open>self.hex\<close> and \<open>self.oct\<close> only ever
  receive bytes that matched \<open>HEX\<close> and \<open>OCT_STRING\<close>, so the conversion is the
  positional value of the digits.
\<close>

definition digit_val :: "char \<Rightarrow> nat" where
  "digit_val c =
     (if isdigit c then of_char c - 48
      else if c \<in> set ''abcdef'' then of_char c - 87
      else of_char c - 55)"

definition int_base :: "nat \<Rightarrow> string \<Rightarrow> nat" where
  "int_base b ds = foldl (\<lambda>acc c. acc * b + digit_val c) 0 ds"

text \<open>
  \<open>int(self._curtoken)\<close> in the Number state: an optional sign and decimal digits, of
  any length; \<open>None\<close> is the \<open>ValueError\<close> of a token without digits. The accumulator
  holds a seed in \<open>-+0..9\<close> followed by digits, so the other spellings \<open>int\<close> accepts
  (blanks, underscores) do not arise; the decimal-digit cap of recent interpreters is
  not modelled.
\<close>

definition py_int :: "string \<Rightarrow> int option" where
  "py_int s =
     (case s of
        [] \<Rightarrow> None
      | c # r \<Rightarrow>
          if c = CHR ''-'' then (if bytes_isdigit r then Some (- int (int_base 10 r)) else None)
          else if c = CHR ''+'' then (if bytes_isdigit r then Some (int (int_base 10 r)) else None)
          else if bytes_isdigit s then Some (int (int_base 10 s)) else None)"

text \<open>
  \<open>float(self._curtoken)\<close> in the Real state. The accumulator is an optional sign,
  digits, at most one point and digits, which \<open>float\<close> accepts exactly when a digit is
  present. The IEEE double itself is outside this model: a parsed real is represented by
  its decimal spelling.
\<close>

definition py_float :: "string \<Rightarrow> string option" where
  "py_float s =
     (let body = (case s of [] \<Rightarrow> [] | c # r \<Rightarrow> if c \<in> set ''+-'' then r else s);
          ip = takeWhile isdigit body;
          rest = dropWhile isdigit body;
          fp = (case rest of [] \<Rightarrow> [] | c # r \<Rightarrow> if c = CHR ''.'' then r else rest)
      in if list_all isdigit fp \<and> (ip \<noteq> [] \<or> fp \<noteq> []) \<and> (rest = [] \<or> hd rest = CHR ''.'')
         then Some s else None)"

text \<open>
  \<open>str(b, "utf-8")\<close> succeeds exactly on well-formed UTF-8 (no overlong forms, no
  surrogates, nothing above U+10FFFF).
\<close>

definition cont :: "char \<Rightarrow> bool" where
  "cont c = (128 \<le> (of_char c :: nat) \<and> (of_char c :: nat) \<le> 191)"

fun utf8_valid :: "string \<Rightarrow> bool" where
  "utf8_valid [] = True"
| "utf8_valid (a # r) =
     (let n = (of_char a :: nat) in
      if n < 128 then utf8_valid r
      else if 194 \<le> n \<and> n \<le> 223 then
        (case r of b # r' \<Rightarrow> cont b \<and> utf8_valid r' | _ \<Rightarrow> False)
      else if 224 \<le> n \<and> n \<le> 239 then
        (case r of b # c # r' \<Rightarrow>
           cont b \<and> cont c \<and> (if n = 224 then 160 \<le> (of_char b :: nat) else True)
             \<and> (if n = 237 then (of_char b :: nat) \<le> 159 else True) \<and> utf8_valid r'
         | _ \<Rightarrow> False)
      else if 240 \<le> n \<and> n \<le> 244 then
        (case r of b # c # d # r' \<Rightarrow>
           cont b \<and> cont c \<and> cont d \<and> (if n = 240 then 144 \<le> (of_char b :: nat) else True)
             \<and> (if n = 244 then (of_char b :: nat) \<le> 143 else True) \<and> utf8_valid r'
         | _ \<Rightarrow> False)
      else False)"

text \<open>
  \<open>HEX_PAIR.sub(lambda m: bytes((int(m.group(0), 16),)), b)\<close>: scanning from the left,
  two hexadecimal digits are replaced by the byte they spell; otherwise the pattern's
  second alternative \<open>.\<close> matches one byte (any but a line feed, which \<open>sub\<close> then
  copies unchanged) and \<open>int(_, 16)\<close> of that one byte is its digit value, or a
  \<open>ValueError\<close> (\<open>None\<close>) when the byte is no hexadecimal digit.
\<close>

fun HEX_PAIR_sub :: "string \<Rightarrow> string option" where
  "HEX_PAIR_sub [] = Some []"
| "HEX_PAIR_sub [a] =
     (if a = CHR 0x0A then Some [a]
      else if HEX a then Some [char_of (digit_val a)] else None)"
| "HEX_PAIR_sub (a # b # r) =
     (if HEX a \<and> HEX b then map_option ((#) (char_of (digit_val a * 16 + digit_val b))) (HEX_PAIR_sub r)
      else if a = CHR 0x0A then map_option ((#) a) (HEX_PAIR_sub (b # r))
      else if HEX a then map_option ((#) (char_of (digit_val a))) (HEX_PAIR_sub (b # r))
      else None)"

text \<open>\<open>SPC.sub(b"", b)\<close> deletes every whitespace byte.\<close>

definition SPC_sub :: "string \<Rightarrow> string" where
  "SPC_sub b = filter (\<lambda>c. \<not> SPC c) b"

section \<open>Tokens and errors\<close>

text \<open>
  A \<open>PSLiteral\<close> name is a \<open>str\<close> or a \<open>bytes\<close> value; a \<open>PSKeyword\<close> name is
  \<open>bytes\<close>. The tokenizer obtains both from the interning tables (modelled with their
  object store in the section on interning), so a symbol token is determined by its
  payload and is represented by it here.
\<close>

datatype name = Str string | Bytes string

datatype token =
    T_int int
  | T_float string
  | T_bool bool
  | PSLiteral name
  | PSKeyword string
  | T_bytes string

text \<open>
  Modelled from the spec: the error classes \<open>PSException\<close>, \<open>PSEOF\<close>,
  \<open>PSSyntaxError\<close>, \<open>PSTypeError\<close> and \<open>PSValueError\<close> of
  \<open>babeldoc.pdfminer.psexceptions\<close>, which is not among the sources. The spec gives
  them as a closed set of distinct kinds, so an \<open>except\<close> clause for one of them
  catches no other. The remaining three are the built-in errors the module can raise.
\<close>

datatype error =
    PSEOF | PSSyntaxError | PSTypeError | PSValueError | PSException
  | AssertionError | ValueError | IndexError

abbreviation KEYWORD_PROC_BEGIN :: token where "KEYWORD_PROC_BEGIN \<equiv> PSKeyword ''{''"
abbreviation KEYWORD_PROC_END :: token where "KEYWORD_PROC_END \<equiv> PSKeyword ''}''"
abbreviation KEYWORD_ARRAY_BEGIN :: token where "KEYWORD_ARRAY_BEGIN \<equiv> PSKeyword ''[''"
abbreviation KEYWORD_ARRAY_END :: token where "KEYWORD_ARRAY_END \<equiv> PSKeyword '']''"
abbreviation KEYWORD_DICT_BEGIN :: token where "KEYWORD_DICT_BEGIN \<equiv> PSKeyword ''<<''"
abbreviation KEYWORD_DICT_END :: token where "KEYWORD_DICT_END \<equiv> PSKeyword ''>>''"

section \<open>PSBaseParser: the tokenizer\<close>

datatype pstate =
    P_main | P_comment | P_literal | P_literal_hex | P_number | P_float
  | P_keyword | P_string | P_string_1 | P_wopen | P_wclose | P_hexstring

text \<open>
  The stream \<open>fp\<close> is its content and its position. \<open>paren\<close>, \<open>hex\<close> and \<open>oct\<close> are
  attributes that Python creates at their first assignment (in \<open>_parse_main\<close>,
  \<open>_parse_literal\<close> and \<open>_parse_string\<close>); \<open>seek\<close> does not touch them.
\<close>

record PSBaseParser =
  fp_data :: string
  fp_pos :: nat
  bufpos :: nat
  buf :: string
  charpos :: nat
  parse1 :: pstate
  curtoken :: string
  curtokenpos :: nat
  tokens :: "(nat \<times> token) list"
  eof :: bool
  paren :: int
  hex :: string
  oct :: string

definition BUFSIZ :: nat where
  "BUFSIZ = 4096"

definition seek :: "'a PSBaseParser_scheme \<Rightarrow> nat \<Rightarrow> 'a PSBaseParser_scheme" where
  "seek p pos =
     p\<lparr>fp_pos := pos, bufpos := pos, buf := [], charpos := 0, parse1 := P_main,
       curtoken := [], curtokenpos := 0, tokens := [], eof := False\<rparr>"

definition PSBaseParser_init :: "string \<Rightarrow> PSBaseParser" where
  "PSBaseParser_init fp =
     seek \<lparr>fp_data = fp, fp_pos = 0, bufpos = 0, buf = [], charpos = 0, parse1 = P_main,
           curtoken = [], curtokenpos = 0, tokens = [], eof = False,
           paren = 0, hex = [], oct = []\<rparr> 0"

definition tell :: "'a PSBaseParser_scheme \<Rightarrow> nat" where
  "tell p = bufpos p + charpos p"

text \<open>
  \<open>fillbuf\<close> has already overwritten \<open>bufpos\<close> and \<open>buf\<close> when it raises, so the
  state comes back with the error.
\<close>

definition fillbuf :: "'a PSBaseParser_scheme \<Rightarrow> (error + unit) \<times> 'a PSBaseParser_scheme" where
  "fillbuf p =
     (if charpos p < length (buf p) then (Inr (), p)
      else
        let chunk = take BUFSIZ (drop (fp_pos p) (fp_data p));
            p1 = p\<lparr>bufpos := fp_pos p, fp_pos := fp_pos p + length chunk, buf := chunk\<rparr>
        in if chunk = [] then (Inl PSEOF, p1) else (Inr (), p1\<lparr>charpos := 0\<rparr>))"

definition add_token :: "'a PSBaseParser_scheme \<Rightarrow> token \<Rightarrow> 'a PSBaseParser_scheme" where
  "add_token p obj = p\<lparr>tokens := tokens p @ [(curtokenpos p, obj)]\<rparr>"

definition parse_main :: "'a PSBaseParser_scheme \<Rightarrow> string \<Rightarrow> nat \<Rightarrow> nat \<times> 'a PSBaseParser_scheme" where
  "parse_main p s i =
     (case search NONSPC s i of
        None \<Rightarrow> (length s, p)
      | Some j \<Rightarrow>
          let c = byte_at s j;
              p = p\<lparr>curtokenpos := bufpos p + j\<rparr>
          in if c = ''%'' then (j + 1, p\<lparr>curtoken := ''%'', parse1 := P_comment\<rparr>)
             else if c = ''/'' then (j + 1, p\<lparr>curtoken := [], parse1 := P_literal\<rparr>)
             else if c \<in> set [[], ''-'', ''+'', ''-+''] \<or> bytes_isdigit c
               then (j + 1, p\<lparr>curtoken := c, parse1 := P_number\<rparr>)
             else if c = ''.'' then (j + 1, p\<lparr>curtoken := c, parse1 := P_float\<rparr>)
             else if bytes_isalpha c then (j + 1, p\<lparr>curtoken := c, parse1 := P_keyword\<rparr>)
             else if c = ''('' then (j + 1, p\<lparr>curtoken := [], paren := 1, parse1 := P_string\<rparr>)
             else if c = ''<'' then (j + 1, p\<lparr>curtoken := [], parse1 := P_wopen\<rparr>)
             else if c = ''>'' then (j + 1, p\<lparr>curtoken := [], parse1 := P_wclose\<rparr>)
             else if c = [CHR 0x00] then (j + 1, p)
             else (j + 1, add_token p (PSKeyword c)))"

definition parse_comment :: "'a PSBaseParser_scheme \<Rightarrow> string \<Rightarrow> nat \<Rightarrow> nat \<times> 'a PSBaseParser_scheme" where
  "parse_comment p s i =
     (case search EOL s i of
        None \<Rightarrow> (length s, p\<lparr>curtoken := curtoken p @ drop i s\<rparr>)
      | Some j \<Rightarrow> (j, p\<lparr>curtoken := curtoken p @ slice s i j, parse1 := P_main\<rparr>))"

definition parse_literal :: "'a PSBaseParser_scheme \<Rightarrow> string \<Rightarrow> nat \<Rightarrow> nat \<times> 'a PSBaseParser_scheme" where
  "parse_literal p s i =
     (case search END_LITERAL s i of
        None \<Rightarrow> (length s, p\<lparr>curtoken := curtoken p @ drop i s\<rparr>)
      | Some j \<Rightarrow>
          let p = p\<lparr>curtoken := curtoken p @ slice s i j\<rparr>;
              c = byte_at s j
          in if c = ''#'' then (j + 1, p\<lparr>hex := [], parse1 := P_literal_hex\<rparr>)
             else
               let name = (if utf8_valid (curtoken p) then Str (curtoken p) else Bytes (curtoken p))
               in (j, (add_token p (PSLiteral name))\<lparr>parse1 := P_main\<rparr>))"

definition parse_literal_hex :: "'a PSBaseParser_scheme \<Rightarrow> string \<Rightarrow> nat \<Rightarrow> nat \<times> 'a PSBaseParser_scheme" where
  "parse_literal_hex p s i =
     (let c = byte_at s i in
      if re_match HEX c \<and> length (hex p) < 2 then (i + 1, p\<lparr>hex := hex p @ c\<rparr>)
      else
        let p = (if hex p \<noteq> [] then p\<lparr>curtoken := curtoken p @ [char_of (int_base 16 (hex p))]\<rparr> else p)
        in (i, p\<lparr>parse1 := P_literal\<rparr>))"

definition parse_number :: "'a PSBaseParser_scheme \<Rightarrow> string \<Rightarrow> nat \<Rightarrow> nat \<times> 'a PSBaseParser_scheme" where
  "parse_number p s i =
     (case search END_NUMBER s i of
        None \<Rightarrow> (length s, p\<lparr>curtoken := curtoken p @ drop i s\<rparr>)
      | Some j \<Rightarrow>
          let p = p\<lparr>curtoken := curtoken p @ slice s i j\<rparr>;
              c = byte_at s j
          in if c = ''.'' then (j + 1, p\<lparr>curtoken := curtoken p @ c, parse1 := P_float\<rparr>)
             else
               let p = (case py_int (curtoken p) of Some n \<Rightarrow> add_token p (T_int n) | None \<Rightarrow> p)
               in (j, p\<lparr>parse1 := P_main\<rparr>))"

definition parse_float :: "'a PSBaseParser_scheme \<Rightarrow> string \<Rightarrow> nat \<Rightarrow> nat \<times> 'a PSBaseParser_scheme" where
  "parse_float p s i =
     (case search END_NUMBER s i of
        None \<Rightarrow> (length s, p\<lparr>curtoken := curtoken p @ drop i s\<rparr>)
      | Some j \<Rightarrow>
          let p = p\<lparr>curtoken := curtoken p @ slice s i j\<rparr>;
              p = (case py_float (curtoken p) of Some x \<Rightarrow> add_token p (T_float x) | None \<Rightarrow> p)
          in (j, p\<lparr>parse1 := P_main\<rparr>))"

definition parse_keyword :: "'a PSBaseParser_scheme \<Rightarrow> string \<Rightarrow> nat \<Rightarrow> nat \<times> 'a PSBaseParser_scheme" where
  "parse_keyword p s i =
     (case search END_KEYWORD s i of
        None \<Rightarrow> (length s, p\<lparr>curtoken := curtoken p @ drop i s\<rparr>)
      | Some j \<Rightarrow>
          let p = p\<lparr>curtoken := curtoken p @ slice s i j\<rparr>;
              token = (if curtoken p = ''true'' then T_bool True
                       else if curtoken p = ''false'' then T_bool False
                       else PSKeyword (curtoken p))
          in (j, (add_token p token)\<lparr>parse1 := P_main\<rparr>))"

definition parse_string :: "'a PSBaseParser_scheme \<Rightarrow> string \<Rightarrow> nat \<Rightarrow> nat \<times> 'a PSBaseParser_scheme" where
  "parse_string p s i =
     (case search END_STRING s i of
        None \<Rightarrow> (length s, p\<lparr>curtoken := curtoken p @ drop i s\<rparr>)
      | Some j \<Rightarrow>
          let p = p\<lparr>curtoken := curtoken p @ slice s i j\<rparr>;
              c = byte_at s j
          in if c = [CHR 0x5C] then (j + 1, p\<lparr>oct := [], parse1 := P_string_1\<rparr>)
             else if c = ''('' then (j + 1, p\<lparr>paren := paren p + 1, curtoken := curtoken p @ c\<rparr>)
             else if c = '')'' \<and> paren p - 1 \<noteq> 0
               then (j + 1, p\<lparr>paren := paren p - 1, curtoken := curtoken p @ c\<rparr>)
             else
               let p = (if c = '')'' then p\<lparr>paren := paren p - 1\<rparr> else p)
               in (j + 1, (add_token p (T_bytes (curtoken p)))\<lparr>parse1 := P_main\<rparr>))"

text \<open>
  The \<open>assert chrcode < 256\<close> of the octal branch can fail (assertions are enabled
  unless the interpreter runs with \<open>-O\<close>). Nothing has been assigned when it does.
\<close>

definition parse_string_1 ::
  "'a PSBaseParser_scheme \<Rightarrow> string \<Rightarrow> nat \<Rightarrow> (error + nat) \<times> 'a PSBaseParser_scheme" where
  "parse_string_1 p s i =
     (let c = byte_at s i in
      if re_match OCT_STRING c \<and> length (oct p) < 3 then (Inr (i + 1), p\<lparr>oct := oct p @ c\<rparr>)
      else if oct p \<noteq> [] then
        (let chrcode = int_base 8 (oct p) in
         if \<not> chrcode < 256 then (Inl AssertionError, p)
         else (Inr i, p\<lparr>curtoken := curtoken p @ [char_of chrcode], parse1 := P_string\<rparr>))
      else if c \<in> fst ` set ESC_STRING then
        (Inr (i + 1),
         p\<lparr>curtoken := curtoken p @ [char_of (the (map_of ESC_STRING c))], parse1 := P_string\<rparr>)
      else if c = [CHR 0x0D] \<and> length s > i + 1 \<and> slice s (i + 1) (i + 2) = [CHR 0x0A]
        then (Inr (i + 1 + 1), p\<lparr>parse1 := P_string\<rparr>)
      else (Inr (i + 1), p\<lparr>parse1 := P_string\<rparr>))"

definition parse_wopen :: "'a PSBaseParser_scheme \<Rightarrow> string \<Rightarrow> nat \<Rightarrow> nat \<times> 'a PSBaseParser_scheme" where
  "parse_wopen p s i =
     (let c = byte_at s i in
      if c = ''<'' then (i + 1, (add_token p KEYWORD_DICT_BEGIN)\<lparr>parse1 := P_main\<rparr>)
      else (i, p\<lparr>parse1 := P_hexstring\<rparr>))"

definition parse_wclose :: "'a PSBaseParser_scheme \<Rightarrow> string \<Rightarrow> nat \<Rightarrow> nat \<times> 'a PSBaseParser_scheme" where
  "parse_wclose p s i =
     (let c = byte_at s i in
      if c = ''>'' then (i + 1, (add_token p KEYWORD_DICT_END)\<lparr>parse1 := P_main\<rparr>)
      else (i, p\<lparr>parse1 := P_main\<rparr>))"

text \<open>
  The \<open>ValueError\<close> of \<open>int(_, 16)\<close> inside the substitution leaves the accumulator
  extended and the state unchanged.
\<close>

definition parse_hexstring ::
  "'a PSBaseParser_scheme \<Rightarrow> string \<Rightarrow> nat \<Rightarrow> (error + nat) \<times> 'a PSBaseParser_scheme" where
  "parse_hexstring p s i =
     (case search END_HEX_STRING s i of
        None \<Rightarrow> (Inr (length s), p\<lparr>curtoken := curtoken p @ drop i s\<rparr>)
      | Some j \<Rightarrow>
          let p = p\<lparr>curtoken := curtoken p @ slice s i j\<rparr>
          in case HEX_PAIR_sub (SPC_sub (curtoken p)) of
               None \<Rightarrow> (Inl ValueError, p)
             | Some token \<Rightarrow> (Inr j, (add_token p (T_bytes token))\<lparr>parse1 := P_main\<rparr>))"

text \<open>\<open>self._parse1(s, i)\<close>: the call through the method pointer.\<close>

definition ok :: "nat \<times> 's \<Rightarrow> (error + nat) \<times> 's" where
  "ok r = (Inr (fst r), snd r)"

definition call_parse1 ::
  "'a PSBaseParser_scheme \<Rightarrow> string \<Rightarrow> nat \<Rightarrow> (error + nat) \<times> 'a PSBaseParser_scheme" where
  "call_parse1 p s i =
     (case parse1 p of
        P_main \<Rightarrow> ok (parse_main p s i)
      | P_comment \<Rightarrow> ok (parse_comment p s i)
      | P_literal \<Rightarrow> ok (parse_literal p s i)
      | P_literal_hex \<Rightarrow> ok (parse_literal_hex p s i)
      | P_number \<Rightarrow> ok (parse_number p s i)
      | P_float \<Rightarrow> ok (parse_float p s i)
      | P_keyword \<Rightarrow> ok (parse_keyword p s i)
      | P_string \<Rightarrow> ok (parse_string p s i)
      | P_string_1 \<Rightarrow> parse_string_1 p s i
      | P_wopen \<Rightarrow> ok (parse_wopen p s i)
      | P_wclose \<Rightarrow> ok (parse_wclose p s i)
      | P_hexstring \<Rightarrow> parse_hexstring p s i)"

subsection \<open>Every handler call makes progress\<close>

text \<open>
  \<open>nexttoken\<close> calls the active handler only after \<open>fillbuf\<close>, so on an index
  inside the buffer. Each handler then either consumes a byte or hands over, at the same
  index, to a state that is closer to \<open>_parse_main\<close>, which always consumes. This is
  what makes the loop of \<open>nexttoken\<close> terminate.
\<close>

lemma tw_less: "\<exists>x\<in>set xs. P x \<Longrightarrow> length (takeWhile (\<lambda>c. \<not> P c) xs) < length xs"
  by (induction xs) auto

lemma tw_hit: "\<exists>x\<in>set xs. P x \<Longrightarrow> P (xs ! length (takeWhile (\<lambda>c. \<not> P c) xs))"
  by (induction xs) auto

lemma search_ge: "search P s i = Some j \<Longrightarrow> i \<le> j \<and> j < length s"
  using tw_less[of "drop i s" P] by (auto simp: search_def list_ex_iff split: if_splits)

lemma search_hit: "search P s i = Some j \<Longrightarrow> P (s ! j)"
  using tw_hit[of "drop i s" P] tw_less[of "drop i s" P] by (auto simp: search_def list_ex_iff split: if_splits)

lemma search_slice: "search P s i = Some j \<Longrightarrow> slice s i j = takeWhile (\<lambda>c. \<not> P c) (drop i s)"
  by (auto simp: search_def slice_def list_ex_iff split: if_splits) (metis append_eq_conv_conj takeWhile_dropWhile_id)

lemma search_None: "search P s i = None \<Longrightarrow> \<forall>c\<in>set (drop i s). \<not> P c"
  by (auto simp: search_def list_ex_iff split: if_splits)

definition rank :: "pstate \<Rightarrow> nat" where
  "rank st = (case st of P_main \<Rightarrow> 0 | P_literal_hex \<Rightarrow> 2 | P_string_1 \<Rightarrow> 2 | P_wopen \<Rightarrow> 2 | _ \<Rightarrow> 1)"

definition frame :: "'a PSBaseParser_scheme \<Rightarrow> 'a PSBaseParser_scheme \<Rightarrow> bool" where
  "frame p p' = (fp_data p' = fp_data p \<and> fp_pos p' = fp_pos p \<and> buf p' = buf p \<and> bufpos p' = bufpos p \<and> eof p' = eof p \<and> charpos p' = charpos p)"

definition progress :: "pstate \<Rightarrow> nat \<Rightarrow> pstate \<Rightarrow> nat \<Rightarrow> bool" where
  "progress st i st' i' = (i < i' \<or> (i' = i \<and> rank st' < rank st))"

lemma main_pr: "parse_main p s i = (i', p') \<Longrightarrow> i < length s \<Longrightarrow> frame p p' \<and> progress P_main i (parse1 p') i'"
  by (auto simp: parse_main_def add_token_def Let_def frame_def progress_def split: option.splits if_splits dest!: search_ge)

lemma comment_pr: "parse_comment p s i = (i', p') \<Longrightarrow> i < length s \<Longrightarrow> frame p p' \<and> progress P_comment i (parse1 p') i'"
  by (auto simp: parse_comment_def Let_def frame_def progress_def rank_def split: option.splits if_splits dest!: search_ge)

lemma literal_pr: "parse_literal p s i = (i', p') \<Longrightarrow> i < length s \<Longrightarrow> frame p p' \<and> progress P_literal i (parse1 p') i'"
  by (auto simp: parse_literal_def add_token_def Let_def frame_def progress_def rank_def split: option.splits if_splits dest!: search_ge)

lemma literal_hex_pr: "parse_literal_hex p s i = (i', p') \<Longrightarrow> i < length s \<Longrightarrow> frame p p' \<and> progress P_literal_hex i (parse1 p') i'"
  by (auto simp: parse_literal_hex_def Let_def frame_def progress_def rank_def split: option.splits if_splits)

lemma number_pr: "parse_number p s i = (i', p') \<Longrightarrow> i < length s \<Longrightarrow> frame p p' \<and> progress P_number i (parse1 p') i'"
  by (auto simp: parse_number_def add_token_def Let_def frame_def progress_def rank_def split: option.splits if_splits dest!: search_ge)

lemma float_pr: "parse_float p s i = (i', p') \<Longrightarrow> i < length s \<Longrightarrow> frame p p' \<and> progress P_float i (parse1 p') i'"
  by (auto simp: parse_float_def add_token_def Let_def frame_def progress_def rank_def split: option.splits if_splits dest!: search_ge)

lemma keyword_pr: "parse_keyword p s i = (i', p') \<Longrightarrow> i < length s \<Longrightarrow> frame p p' \<and> progress P_keyword i (parse1 p') i'"
  by (auto simp: parse_keyword_def add_token_def Let_def frame_def progress_def rank_def split: option.splits if_splits dest!: search_ge)

lemma string_pr: "parse_string p s i = (i', p') \<Longrightarrow> i < length s \<Longrightarrow> frame p p' \<and> progress P_string i (parse1 p') i'"
  by (auto simp: parse_string_def add_token_def Let_def frame_def progress_def rank_def split: option.splits if_splits dest!: search_ge)

lemma string_1_pr: "parse_string_1 p s i = (Inr i', p') \<Longrightarrow> i < length s \<Longrightarrow> frame p p' \<and> progress P_string_1 i (parse1 p') i'"
  by (auto simp: parse_string_1_def Let_def frame_def progress_def rank_def split: option.splits if_splits)

lemma string_1_fr: "parse_string_1 p s i = (Inl e, p') \<Longrightarrow> p' = p"
  by (auto simp: parse_string_1_def Let_def split: option.splits if_splits)

lemma wopen_pr: "parse_wopen p s i = (i', p') \<Longrightarrow> i < length s \<Longrightarrow> frame p p' \<and> progress P_wopen i (parse1 p') i'"
  by (auto simp: parse_wopen_def add_token_def Let_def frame_def progress_def rank_def split: option.splits if_splits)

lemma wclose_pr: "parse_wclose p s i = (i', p') \<Longrightarrow> i < length s \<Longrightarrow> frame p p' \<and> progress P_wclose i (parse1 p') i'"
  by (auto simp: parse_wclose_def add_token_def Let_def frame_def progress_def rank_def split: option.splits if_splits)

lemma hexstring_pr: "parse_hexstring p s i = (Inr i', p') \<Longrightarrow> i < length s \<Longrightarrow> frame p p' \<and> progress P_hexstring i (parse1 p') i'"
  by (auto simp: parse_hexstring_def add_token_def Let_def frame_def progress_def rank_def split: option.splits if_splits dest!: search_ge)

lemma hexstring_fr: "parse_hexstring p s i = (Inl e, p') \<Longrightarrow> frame p p'"
  by (auto simp: parse_hexstring_def add_token_def Let_def frame_def split: option.splits if_splits)

lemma ok_eq [simp]: "ok r = (Inr i', p') \<longleftrightarrow> r = (i', p')" "ok r \<noteq> (Inl e, p')"
  by (cases r; auto simp: ok_def)+

lemma call_parse1_pr:
  "call_parse1 p s i = (Inr i', p') \<Longrightarrow> i < length s \<Longrightarrow> frame p p' \<and> progress (parse1 p) i (parse1 p') i'"
  by (cases "parse1 p")
     (simp_all add: call_parse1_def main_pr comment_pr literal_pr literal_hex_pr number_pr float_pr
        keyword_pr string_pr string_1_pr wopen_pr wclose_pr hexstring_pr)

lemma call_parse1_fr:
  "call_parse1 p s i = (Inl e, p') \<Longrightarrow> frame p p'"
  by (cases "parse1 p") (auto simp: call_parse1_def dest: string_1_fr hexstring_fr simp: frame_def)

subsection \<open>nexttoken\<close>

definition remaining :: "'a PSBaseParser_scheme \<Rightarrow> nat" where
  "remaining p = (length (fp_data p) - fp_pos p) + (length (buf p) - charpos p)"

lemma fillbuf_ok:
  "fillbuf p = (Inr u, p1) \<Longrightarrow>
     charpos p1 < length (buf p1) \<and> remaining p1 = remaining p \<and> parse1 p1 = parse1 p"
  by (auto simp: fillbuf_def Let_def remaining_def BUFSIZ_def split: if_splits)

text \<open>
  The \<open>while not self._tokens\<close> loop. In the \<open>except PSEOF\<close> branch the handler is
  run on the one synthetic byte \<open>\n\<close>; an exception of the handler itself (the failed
  assertion of \<open>_parse_string_1\<close>) is not a \<open>PSEOF\<close> and leaves the loop at once, in
  either branch, before \<open>charpos\<close> is assigned.
\<close>

function nexttoken_loop :: "'a PSBaseParser_scheme \<Rightarrow> (error + unit) \<times> 'a PSBaseParser_scheme" where
  "nexttoken_loop p =
     (if tokens p \<noteq> [] then (Inr (), p)
      else
        case fillbuf p of
          (Inr _, p1) \<Rightarrow>
            (case call_parse1 p1 (buf p1) (charpos p1) of
               (Inr i, p2) \<Rightarrow> nexttoken_loop (p2\<lparr>charpos := i\<rparr>)
             | (Inl e, p2) \<Rightarrow> (Inl e, p2))
        | (Inl _, p1) \<Rightarrow>
            (case call_parse1 p1 [CHR 0x0A] 0 of
               (Inr i, p2) \<Rightarrow>
                 let p3 = p2\<lparr>charpos := i, eof := True\<rparr>
                 in if tokens p3 = [] then (Inl PSEOF, p3) else (Inr (), p3)
             | (Inl e, p2) \<Rightarrow> (Inl e, p2)))"
  by pat_completeness auto
termination
proof (relation "measures [remaining, \<lambda>p. rank (parse1 p)]", goal_cases)
  case 1
  show ?case by simp
next
  case (2 p x p1 u r p2 i)
  from 2(2) 2(3) have fb: "fillbuf p = (Inr u, p1)" by simp
  from 2(4) 2(5) have cp: "call_parse1 p1 (buf p1) (charpos p1) = (Inr i, p2)" by simp
  note f = fillbuf_ok[OF fb]
  from call_parse1_pr[OF cp] f
  show ?case by (auto simp: remaining_def frame_def progress_def)
qed

declare nexttoken_loop.simps [simp del]

text \<open>\<open>self._tokens.pop(0)\<close> raises \<open>IndexError\<close> on an empty list.\<close>

definition nexttoken ::
  "'a PSBaseParser_scheme \<Rightarrow> (error + nat \<times> token) \<times> 'a PSBaseParser_scheme" where
  "nexttoken p =
     (if eof p then (Inl PSEOF, p)
      else
        case nexttoken_loop p of
          (Inl e, p1) \<Rightarrow> (Inl e, p1)
        | (Inr _, p1) \<Rightarrow>
            (case tokens p1 of
               [] \<Rightarrow> (Inl IndexError, p1)
             | token # rest \<Rightarrow> (Inr token, p1\<lparr>tokens := rest\<rparr>)))"

section \<open>PSStackParser: the object parser\<close>

text \<open>
  A stack slot holds a token, a Python list (built by \<open>[ ]\<close> and by \<open>{ }\<close> alike), a
  Python dict or \<open>None\<close>. A dict is an association list with distinct keys in insertion
  order; \<open>d[k] = v\<close> is \<open>AList.update k v d\<close> and lookup is \<open>map_of\<close>.
\<close>

datatype obj =
    Tok token
  | List "obj list"
  | Dict "(string \<times> obj) list"
  | PyNone

text \<open>
  \<open>literal_name\<close>. \<open>strict\<close> is \<open>settings.STRICT\<close> and \<open>py_str\<close> is Python's built-in
  one-argument \<open>str\<close> on stack values; both come from outside the module and are
  parameters.
\<close>

definition literal_name :: "bool \<Rightarrow> (obj \<Rightarrow> string) \<Rightarrow> obj \<Rightarrow> error + string" where
  "literal_name strict py_str x =
     (case x of
        Tok (PSLiteral (Str n)) \<Rightarrow> Inr n
      | Tok (PSLiteral (Bytes b)) \<Rightarrow>
          if utf8_valid b then Inr b else Inr (py_str (Tok (T_bytes b)))
      | _ \<Rightarrow> if strict then Inl PSTypeError else Inr (py_str x))"

text \<open>
  Modelled from the spec: \<open>choplist\<close> of \<open>babeldoc.pdfminer.utils\<close>, which is not among
  the sources. The spec: consecutive non-overlapping windows of length \<open>n\<close>; when the
  length of the sequence is not a multiple of \<open>n\<close>, the trailing partial window is
  dropped.
\<close>

function choplist :: "nat \<Rightarrow> 'a list \<Rightarrow> 'a list list" where
  "choplist n seq =
     (if n = 0 \<or> length seq < n then [] else take n seq # choplist n (drop n seq))"
  by pat_completeness auto
termination
  by (relation "measure (\<lambda>(n, seq). length seq)") auto

declare choplist.simps [simp del]

text \<open>
  The dict comprehension
  \<open>{literal_name(k): v for (k, v) in choplist(2, objs) if v is not None}\<close>: for each
  window in order the filter is evaluated first, then the key, then the entry is stored.
  Unpacking a window that is no pair is a \<open>ValueError\<close>.
\<close>

fun dict_comprehension ::
  "bool \<Rightarrow> (obj \<Rightarrow> string) \<Rightarrow> obj list list \<Rightarrow> (string \<times> obj) list \<Rightarrow> error + (string \<times> obj) list" where
  "dict_comprehension strict py_str [] d = Inr d"
| "dict_comprehension strict py_str (w # ws) d =
     (case w of
        [k, v] \<Rightarrow>
          if v \<noteq> PyNone then
            (case literal_name strict py_str k of
               Inl e \<Rightarrow> Inl e
             | Inr key \<Rightarrow> dict_comprehension strict py_str ws (AList.update key v d))
          else dict_comprehension strict py_str ws d
      | _ \<Rightarrow> Inl ValueError)"

record PSStackParser = PSBaseParser +
  "context" :: "(nat \<times> string option \<times> (nat \<times> obj) list) list"
  curtype :: "string option"
  curstack :: "(nat \<times> obj) list"
  results :: "(nat \<times> obj) list"

definition reset :: "PSStackParser \<Rightarrow> PSStackParser" where
  "reset p = p\<lparr>context := [], curtype := None, curstack := [], results := []\<rparr>"

definition PSStackParser_seek :: "PSStackParser \<Rightarrow> nat \<Rightarrow> PSStackParser" where
  "PSStackParser_seek p pos = reset (seek p pos)"

definition PSStackParser_init :: "string \<Rightarrow> PSStackParser" where
  "PSStackParser_init fp =
     reset (PSStackParser_seek
       \<lparr>fp_data = fp, fp_pos = 0, bufpos = 0, buf = [], charpos = 0, parse1 = P_main,
        curtoken = [], curtokenpos = 0, tokens = [], eof = False,
        paren = 0, hex = [], oct = [],
        context = [], curtype = None, curstack = [], results = []\<rparr> 0)"

definition push :: "PSStackParser \<Rightarrow> (nat \<times> obj) list \<Rightarrow> PSStackParser" where
  "push p objs = p\<lparr>curstack := curstack p @ objs\<rparr>"

definition popall :: "PSStackParser \<Rightarrow> (nat \<times> obj) list \<times> PSStackParser" where
  "popall p = (curstack p, p\<lparr>curstack := []\<rparr>)"

definition add_results :: "PSStackParser \<Rightarrow> (nat \<times> obj) list \<Rightarrow> PSStackParser" where
  "add_results p objs = p\<lparr>results := results p @ objs\<rparr>"

definition start_type :: "PSStackParser \<Rightarrow> nat \<Rightarrow> string \<Rightarrow> PSStackParser" where
  "start_type p pos type =
     p\<lparr>context := context p @ [(pos, curtype p, curstack p)], curtype := Some type, curstack := []\<rparr>"

text \<open>\<open>self.context.pop()\<close> on an empty list is an \<open>IndexError\<close>.\<close>

definition end_type :: "PSStackParser \<Rightarrow> string \<Rightarrow> (error + nat \<times> obj list) \<times> PSStackParser" where
  "end_type p type =
     (if curtype p \<noteq> Some type then (Inl PSTypeError, p)
      else
        let objs = map snd (curstack p) in
        if context p = [] then (Inl IndexError, p)
        else
          case last (context p) of
            (pos, ct, cs) \<Rightarrow>
              (Inr (pos, objs), p\<lparr>context := butlast (context p), curtype := ct, curstack := cs\<rparr>))"

text \<open>
  The two overridable methods that \<open>nextobject\<close> calls are parameters of the model;
  \<open>flush\<close> and \<open>do_keyword\<close> below are the bodies this module gives them.
\<close>

definition flush :: "PSStackParser \<Rightarrow> PSStackParser" where
  "flush p = p"

definition do_keyword :: "nat \<Rightarrow> token \<Rightarrow> PSStackParser \<Rightarrow> PSStackParser" where
  "do_keyword pos token p = p"

text \<open>
  \<open>except PSTypeError: if settings.STRICT: raise\<close>: the clause catches
  \<open>PSTypeError\<close> only, and re-raises it when \<open>strict\<close> is set.
\<close>

definition except_PSTypeError ::
  "bool \<Rightarrow> error \<Rightarrow> PSStackParser \<Rightarrow> (error + unit) \<times> PSStackParser" where
  "except_PSTypeError strict e p =
     (if e = PSTypeError \<and> \<not> strict then (Inr (), p) else (Inl e, p))"

text \<open>
  The body of the \<open>while\<close> loop of \<open>nextobject\<close> for one token, up to the test of
  \<open>self.context\<close>. The final \<open>else\<close> branch of the source (a token that is neither a
  value nor a \<open>PSKeyword\<close>) has no counterpart: the token type has no such value.
\<close>

definition dispatch ::
  "bool \<Rightarrow> (obj \<Rightarrow> string) \<Rightarrow> (nat \<Rightarrow> token \<Rightarrow> PSStackParser \<Rightarrow> PSStackParser) \<Rightarrow>
     PSStackParser \<Rightarrow> nat \<Rightarrow> token \<Rightarrow> (error + unit) \<times> PSStackParser" where
  "dispatch strict py_str do_kw p pos token =
     (case token of
        PSKeyword kw \<Rightarrow>
          if token = KEYWORD_ARRAY_BEGIN then (Inr (), start_type p pos ''a'')
          else if token = KEYWORD_ARRAY_END then
            (case end_type p ''a'' of
               (Inr (pos0, objs), p1) \<Rightarrow> (Inr (), push p1 [(pos0, List objs)])
             | (Inl e, p1) \<Rightarrow> except_PSTypeError strict e p1)
          else if token = KEYWORD_DICT_BEGIN then (Inr (), start_type p pos ''d'')
          else if token = KEYWORD_DICT_END then
            (case end_type p ''d'' of
               (Inr (pos0, objs), p1) \<Rightarrow>
                 if length objs mod 2 \<noteq> 0 then (Inl PSSyntaxError, p1)
                 else
                   (case dict_comprehension strict py_str (choplist 2 objs) [] of
                      Inr d \<Rightarrow> (Inr (), push p1 [(pos0, Dict d)])
                    | Inl e \<Rightarrow> except_PSTypeError strict e p1)
             | (Inl e, p1) \<Rightarrow> except_PSTypeError strict e p1)
          else if token = KEYWORD_PROC_BEGIN then (Inr (), start_type p pos ''p'')
          else if token = KEYWORD_PROC_END then
            (case end_type p ''p'' of
               (Inr (pos0, objs), p1) \<Rightarrow> (Inr (), push p1 [(pos0, List objs)])
             | (Inl e, p1) \<Rightarrow> except_PSTypeError strict e p1)
          else (Inr (), do_kw pos token p)
      | _ \<Rightarrow> (Inr (), push p [(pos, Tok token)]))"

text \<open>
  \<open>nextobject\<close>. An overriding hook may do anything to the parser (reposition the
  stream, for one), so the loop need not end: the result is an option, \<open>None\<close> for a
  call that never returns.
\<close>

partial_function (option) nextobject ::
  "bool \<Rightarrow> (obj \<Rightarrow> string) \<Rightarrow> (PSStackParser \<Rightarrow> PSStackParser) \<Rightarrow>
     (nat \<Rightarrow> token \<Rightarrow> PSStackParser \<Rightarrow> PSStackParser) \<Rightarrow>
     PSStackParser \<Rightarrow> ((error + nat \<times> obj) \<times> PSStackParser) option" where
  "nextobject strict py_str fl do_kw p =
     (case results p of
        obj # rest \<Rightarrow> Some (Inr obj, p\<lparr>results := rest\<rparr>)
      | [] \<Rightarrow>
          (case nexttoken p of
             (Inl e, p1) \<Rightarrow> Some (Inl e, p1)
           | (Inr (pos, token), p1) \<Rightarrow>
               (case dispatch strict py_str do_kw p1 pos token of
                  (Inl e, p2) \<Rightarrow> Some (Inl e, p2)
                | (Inr _, p2) \<Rightarrow>
                    nextobject strict py_str fl do_kw (if context p2 \<noteq> [] then p2 else fl p2))))"

declare nextobject.simps [code]

section \<open>Rules for the loop of nexttoken\<close>

lemma nexttoken_loop_done: "tokens p \<noteq> [] \<Longrightarrow> nexttoken_loop p = (Inr (), p)"
  by (subst nexttoken_loop.simps) simp

lemma nexttoken_loop_eof:
  "tokens p = [] \<Longrightarrow> fillbuf p = (Inl e, p1) \<Longrightarrow>
     nexttoken_loop p =
       (case call_parse1 p1 [CHR 0x0A] 0 of
          (Inr i, p2) \<Rightarrow>
            let p3 = p2\<lparr>charpos := i, eof := True\<rparr>
            in if tokens p3 = [] then (Inl PSEOF, p3) else (Inr (), p3)
        | (Inl e, p2) \<Rightarrow> (Inl e, p2))"
  by (subst nexttoken_loop.simps) simp

lemma nexttoken_loop_raise:
  "tokens p = [] \<Longrightarrow> fillbuf p = (Inr u, p1) \<Longrightarrow>
     call_parse1 p1 (buf p1) (charpos p1) = (Inl e, p2) \<Longrightarrow> nexttoken_loop p = (Inl e, p2)"
  by (subst nexttoken_loop.simps) simp

lemma nexttoken_loop_step:
  "tokens p = [] \<Longrightarrow> fillbuf p = (Inr u, p1) \<Longrightarrow>
     call_parse1 p1 (buf p1) (charpos p1) = (Inr i, p2) \<Longrightarrow>
     nexttoken_loop p = nexttoken_loop (p2\<lparr>charpos := i\<rparr>)"
  by (subst nexttoken_loop.simps) simp

lemma nexttoken_loop_induct [case_names loop]:
  assumes "\<And>p. (\<And>u p1 i p2. tokens p = [] \<Longrightarrow> fillbuf p = (Inr u, p1) \<Longrightarrow>
                call_parse1 p1 (buf p1) (charpos p1) = (Inr i, p2) \<Longrightarrow> P (p2\<lparr>charpos := i\<rparr>)) \<Longrightarrow> P p"
  shows "P a"
proof (induction a rule: nexttoken_loop.induct)
  case (1 p)
  show ?case
  proof (rule assms)
    fix u p1 i p2
    assume "tokens p = []" "fillbuf p = (Inr u, p1)" "call_parse1 p1 (buf p1) (charpos p1) = (Inr i, p2)"
    then show "P (p2\<lparr>charpos := i\<rparr>)"
      using "1.IH"[of "Inr u" p1 u "Inr i" p2 i] by simp
  qed
qed

text \<open>A relation that every part of the loop respects holds between its ends.\<close>

lemma nexttoken_loop_rel:
  assumes refl: "\<And>p. R p p"
    and trans: "\<And>p q r. R p q \<Longrightarrow> R q r \<Longrightarrow> R p r"
    and fb: "\<And>p r p1. fillbuf p = (r, p1) \<Longrightarrow> R p p1"
    and cp: "\<And>p s i r p2. call_parse1 p s i = (r, p2) \<Longrightarrow> R p p2"
    and upd: "\<And>p i. R p (p\<lparr>charpos := i\<rparr>)" "\<And>p. R p (p\<lparr>eof := True\<rparr>)"
  shows "nexttoken_loop p = (r, p') \<Longrightarrow> R p p'"
proof (induction p arbitrary: r p' rule: nexttoken_loop_induct)
  case (loop p)
  show ?case
  proof (cases "tokens p = []")
    case False
    with loop.prems show ?thesis by (simp add: nexttoken_loop_done refl)
  next
    case True
    obtain fr p1 where f: "fillbuf p = (fr, p1)" by (cases "fillbuf p")
    show ?thesis
    proof (cases fr)
      case (Inl e)
      obtain cr p2 where c: "call_parse1 p1 [CHR 0x0A] 0 = (cr, p2)"
        by (cases "call_parse1 p1 [CHR 0x0A] 0")
      have "R p p2" using fb[OF f] cp[OF c] trans by blast
      moreover have "R p2 (p2\<lparr>charpos := i, eof := True\<rparr>)" for i
        using upd(1)[of p2 i] upd(2)[of "p2\<lparr>charpos := i\<rparr>"] trans by blast
      ultimately show ?thesis
        using loop.prems True f Inl c trans
        by (auto simp: nexttoken_loop_eof Let_def split: sum.splits if_splits)
    next
      case (Inr u)
      obtain cr p2 where c: "call_parse1 p1 (buf p1) (charpos p1) = (cr, p2)"
        by (cases "call_parse1 p1 (buf p1) (charpos p1)")
      have r2: "R p p2" using fb[OF f] cp[OF c] trans by blast
      show ?thesis
      proof (cases cr)
        case (Inl e)
        with loop.prems True f Inr c r2 show ?thesis by (simp add: nexttoken_loop_raise)
      next
        case (Inr i)
        with loop.prems True f \<open>fr = Inr u\<close> c
        have "nexttoken_loop (p2\<lparr>charpos := i\<rparr>) = (r, p')"
          by (simp add: nexttoken_loop_step)
        from loop.IH[OF True f[unfolded \<open>fr = Inr u\<close>] c[unfolded Inr] this]
        show ?thesis using r2 upd(1)[of p2 i] trans by blast
      qed
    qed
  qed
qed

text \<open>The tokenizer never touches the fields of the object parser.\<close>

definition stack_eq :: "PSStackParser \<Rightarrow> PSStackParser \<Rightarrow> bool" where
  "stack_eq p p' = (context p' = context p \<and> curtype p' = curtype p \<and> curstack p' = curstack p \<and> results p' = results p)"

lemma call_parse1_stack: "call_parse1 p s i = (r, p') \<Longrightarrow> stack_eq p p'"
  by (cases "parse1 p")
   (auto simp: call_parse1_def ok_def parse_main_def parse_comment_def parse_literal_def
      parse_literal_hex_def parse_number_def parse_float_def parse_keyword_def parse_string_def
      parse_string_1_def parse_wopen_def parse_wclose_def parse_hexstring_def add_token_def Let_def stack_eq_def
      split: option.splits if_splits)

lemma fillbuf_stack: "fillbuf p = (r, p') \<Longrightarrow> stack_eq p p'"
  by (auto simp: fillbuf_def Let_def stack_eq_def split: if_splits)

lemma stack_eq_refl: "stack_eq p p"
  by (simp add: stack_eq_def)

lemma stack_eq_trans: "stack_eq p q \<Longrightarrow> stack_eq q r \<Longrightarrow> stack_eq p r"
  by (simp add: stack_eq_def)

lemma nexttoken_loop_stack:
  assumes "nexttoken_loop p = (r, p')"
  shows "stack_eq p p'"
proof (rule nexttoken_loop_rel[where R = stack_eq, OF _ _ _ _ _ _ assms])
  show "stack_eq p p" for p :: PSStackParser by (rule stack_eq_refl)
  show "stack_eq p q \<Longrightarrow> stack_eq q r \<Longrightarrow> stack_eq p r" for p q r by (rule stack_eq_trans)
  show "fillbuf p = (r, p1) \<Longrightarrow> stack_eq p p1" for p r p1 by (rule fillbuf_stack)
  show "call_parse1 p s i = (r, p2) \<Longrightarrow> stack_eq p p2" for p s i r p2 by (rule call_parse1_stack)
  show "stack_eq p (p\<lparr>charpos := i\<rparr>)" for p i by (simp add: stack_eq_def)
  show "stack_eq p (p\<lparr>eof := True\<rparr>)" for p by (simp add: stack_eq_def)
qed

lemma nexttoken_stack:
  assumes "nexttoken p = (r, p')"
  shows "stack_eq p p'"
proof (cases "eof p")
  case True
  with assms show ?thesis by (simp add: nexttoken_def stack_eq_def)
next
  case False
  obtain lr p1 where l: "nexttoken_loop p = (lr, p1)" by (cases "nexttoken_loop p")
  from nexttoken_loop_stack[OF l] assms False l show ?thesis
    by (cases lr; cases "tokens p1") (auto simp: nexttoken_def stack_eq_def)
qed

section \<open>Rules for the object parser\<close>

lemma end_type_mismatch: "curtype p \<noteq> Some ty \<Longrightarrow> end_type p ty = (Inl PSTypeError, p)"
  by (simp add: end_type_def)

lemma end_type_match:
  "curtype p = Some ty \<Longrightarrow> context p = ctx @ [(pos0, ct, cs)] \<Longrightarrow>
     end_type p ty = (Inr (pos0, map snd (curstack p)), p\<lparr>context := ctx, curtype := ct, curstack := cs\<rparr>)"
  by (simp add: end_type_def)

lemma dispatch_DICT_END:
  "dispatch strict py_str do_kw p pos KEYWORD_DICT_END =
     (case end_type p ''d'' of
        (Inr (pos0, objs), p1) \<Rightarrow>
          if length objs mod 2 \<noteq> 0 then (Inl PSSyntaxError, p1)
          else
            (case dict_comprehension strict py_str (choplist 2 objs) [] of
               Inr d \<Rightarrow> (Inr (), push p1 [(pos0, Dict d)])
             | Inl e \<Rightarrow> except_PSTypeError strict e p1)
      | (Inl e, p1) \<Rightarrow> except_PSTypeError strict e p1)"
  by (simp add: dispatch_def)

lemma dispatch_ARRAY_END:
  "dispatch strict py_str do_kw p pos KEYWORD_ARRAY_END =
     (case end_type p ''a'' of
        (Inr (pos0, objs), p1) \<Rightarrow> (Inr (), push p1 [(pos0, List objs)])
      | (Inl e, p1) \<Rightarrow> except_PSTypeError strict e p1)"
  by (simp add: dispatch_def)

lemma nextobject_token:
  "results p = [] \<Longrightarrow> nexttoken p = (Inr (pos, token), p1) \<Longrightarrow>
     nextobject strict py_str fl do_kw p =
       (case dispatch strict py_str do_kw p1 pos token of
          (Inl e, p2) \<Rightarrow> Some (Inl e, p2)
        | (Inr _, p2) \<Rightarrow> nextobject strict py_str fl do_kw (if context p2 \<noteq> [] then p2 else fl p2))"
  by (subst nextobject.simps) simp

section \<open>The whole token stream\<close>

text \<open>
  A call of \<open>nexttoken\<close> that returns a token leaves the parser smaller in the order
  below: \<open>eof\<close> has been set, or input has been consumed, or the state is closer to
  \<open>_parse_main\<close>, or a pending token is gone. So calling \<open>nexttoken\<close> until it
  raises is a total function: \<open>tokenize\<close> returns the tokens, the error that ended
  the scan and the final state.
\<close>

definition loop_order :: "('a PSBaseParser_scheme \<times> 'a PSBaseParser_scheme) set" where
  "loop_order = measures [\<lambda>p. if eof p then 0 else 1, remaining, \<lambda>p. rank (parse1 p)]"

lemma loop_order_trans: "(a, b) \<in> loop_order \<Longrightarrow> (b, c) \<in> loop_order \<Longrightarrow> (a, c) \<in> loop_order"
  by (auto simp: loop_order_def split: if_splits)

lemma fillbuf_eof_kept: "fillbuf p = (r, p1) \<Longrightarrow> eof p1 = eof p"
  by (auto simp: fillbuf_def Let_def split: if_splits)

lemma loop_step_order:
  assumes "fillbuf p = (Inr u, p1)" and "call_parse1 p1 (buf p1) (charpos p1) = (Inr i, p2)"
  shows "(p2\<lparr>charpos := i\<rparr>, p) \<in> loop_order"
  using fillbuf_ok[OF assms(1)] call_parse1_pr[OF assms(2)] fillbuf_eof_kept[OF assms(1)]
  by (auto simp: loop_order_def remaining_def frame_def progress_def)

lemma nexttoken_loop_order:
  "nexttoken_loop p = (Inr u, p') \<Longrightarrow> tokens p = [] \<Longrightarrow> \<not> eof p \<Longrightarrow> (p', p) \<in> loop_order"
proof (induction p arbitrary: p' rule: nexttoken_loop_induct)
  case (loop p)
  obtain fr p1 where f: "fillbuf p = (fr, p1)" by (cases "fillbuf p")
  show ?case
  proof (cases fr)
    case (Inl e)
    obtain cr p2 where c: "call_parse1 p1 [CHR 0x0A] 0 = (cr, p2)"
      by (cases "call_parse1 p1 [CHR 0x0A] 0")
    from loop.prems f Inl c have "eof p'"
      by (auto simp: nexttoken_loop_eof Let_def split: sum.splits if_splits)
    with loop.prems(3) show ?thesis by (simp add: loop_order_def)
  next
    case (Inr v)
    obtain cr p2 where c: "call_parse1 p1 (buf p1) (charpos p1) = (cr, p2)"
      by (cases "call_parse1 p1 (buf p1) (charpos p1)")
    show ?thesis
    proof (cases cr)
      case (Inl e)
      with loop.prems f Inr c show ?thesis by (simp add: nexttoken_loop_raise)
    next
      case (Inr i)
      let ?q = "p2\<lparr>charpos := i\<rparr>"
      from f \<open>fr = Inr v\<close> c Inr have s: "(?q, p) \<in> loop_order"
        using loop_step_order by blast
      from loop.prems f \<open>fr = Inr v\<close> c Inr have l: "nexttoken_loop ?q = (Inr u, p')"
        by (simp add: nexttoken_loop_step)
      have e: "\<not> eof ?q"
        using loop.prems(3) fillbuf_eof_kept[OF f] fillbuf_ok[OF f[unfolded \<open>fr = Inr v\<close>]]
          call_parse1_pr[OF c[unfolded Inr]]
        by (simp add: frame_def)
      show ?thesis
      proof (cases "tokens ?q = []")
        case True
        from loop.IH[OF loop.prems(2) f[unfolded \<open>fr = Inr v\<close>] c[unfolded Inr] l True e] s
        show ?thesis by (rule loop_order_trans)
      next
        case False
        with l have "p' = ?q" by (simp add: nexttoken_loop_done)
        with s show ?thesis by simp
      qed
    qed
  qed
qed

definition call_order :: "('a PSBaseParser_scheme \<times> 'a PSBaseParser_scheme) set" where
  "call_order = measures [\<lambda>p. if eof p then 0 else 1, remaining, \<lambda>p. rank (parse1 p), \<lambda>p. length (tokens p)]"

lemma nexttoken_order:
  assumes "nexttoken p = (Inr t, p')"
  shows "(p', p) \<in> call_order"
proof -
  from assms have ne: "\<not> eof p" by (auto simp: nexttoken_def split: if_splits)
  obtain lr p1 where l: "nexttoken_loop p = (lr, p1)" by (cases "nexttoken_loop p")
  from assms ne l obtain u rest where lr: "lr = Inr u" and tk: "tokens p1 = t # rest"
    and p': "p' = p1\<lparr>tokens := rest\<rparr>"
    by (cases lr; cases "tokens p1") (auto simp: nexttoken_def)
  show ?thesis
  proof (cases "tokens p = []")
    case True
    from nexttoken_loop_order[OF l[unfolded lr] True ne] p' show ?thesis
      by (auto simp: loop_order_def call_order_def remaining_def split: if_splits)
  next
    case False
    with l have "p1 = p" by (simp add: nexttoken_loop_done)
    with p' tk show ?thesis by (simp add: call_order_def remaining_def)
  qed
qed

function tokenize ::
  "'a PSBaseParser_scheme \<Rightarrow> (nat \<times> token) list \<times> error \<times> 'a PSBaseParser_scheme" where
  "tokenize p =
     (case nexttoken p of
        (Inl e, p1) \<Rightarrow> ([], e, p1)
      | (Inr t, p1) \<Rightarrow> (case tokenize p1 of (ts, r) \<Rightarrow> (t # ts, r)))"
  by pat_completeness auto
termination
proof (relation call_order, goal_cases)
  case 1
  show ?case by (simp add: call_order_def)
next
  case (2 p x p1 t)
  then have "nexttoken p = (Inr t, p1)" by simp
  then show ?case by (rule nexttoken_order)
qed

declare tokenize.simps [simp del]

lemma tokenize_raise: "nexttoken p = (Inl e, p1) \<Longrightarrow> tokenize p = ([], e, p1)"
  by (subst tokenize.simps) simp

lemma tokenize_token:
  "nexttoken p = (Inr t, p1) \<Longrightarrow> tokenize p = (t # fst (tokenize p1), snd (tokenize p1))"
  by (subst tokenize.simps) (simp add: case_prod_beta)

lemma wf_call_order: "wf call_order"
  by (simp add: call_order_def)

section \<open>Interning tables\<close>

text \<open>
  Object identity needs a store: the heap is the list of the symbol objects created so
  far, an object is its index there, and \<open>self.klass(name)\<close> allocates the next index.
  \<open>intern\<close> returns the object with the new table and heap.
\<close>

record 'o PSSymbolTable =
  dict :: "name \<rightharpoonup> nat"
  klass :: "name \<Rightarrow> 'o"

definition PSSymbolTable_init :: "(name \<Rightarrow> 'o) \<Rightarrow> 'o PSSymbolTable" where
  "PSSymbolTable_init k = \<lparr>dict = Map.empty, klass = k\<rparr>"

definition intern :: "'o PSSymbolTable \<times> 'o list \<Rightarrow> name \<Rightarrow> nat \<times> 'o PSSymbolTable \<times> 'o list" where
  "intern th name =
     (case th of (t, heap) \<Rightarrow>
        (case dict t name of
           Some lit \<Rightarrow> (lit, t, heap)
         | None \<Rightarrow>
             let lit = length heap
             in (lit, t\<lparr>dict := (dict t)(name \<mapsto> lit)\<rparr>, heap @ [klass t name])))"

fun interns :: "'o PSSymbolTable \<times> 'o list \<Rightarrow> name list \<Rightarrow> nat list \<times> 'o PSSymbolTable \<times> 'o list" where
  "interns th [] = ([], th)"
| "interns th (n # ns) =
     (let r = intern th n; rs = interns (snd r) ns in (fst r # fst rs, snd rs))"

lemma intern_entry: "dict (fst (snd (intern th n))) n = Some (fst (intern th n))"
  by (cases th) (auto simp: intern_def Let_def split: option.splits)

lemma intern_keeps: "dict (fst th) m = Some r \<Longrightarrow> dict (fst (snd (intern th n))) m = Some r"
  by (cases th) (auto simp: intern_def Let_def split: option.splits)

lemma interns_keeps: "dict (fst th) m = Some r \<Longrightarrow> dict (fst (snd (interns th ns))) m = Some r"
proof (induction ns arbitrary: th)
  case Nil
  then show ?case by simp
next
  case (Cons n ns)
  from intern_keeps[OF Cons.prems, of n] Cons.IH[of "snd (intern th n)"]
  show ?case by (simp add: Let_def)
qed

lemma intern_existing:
  "dict (fst th) n = Some r \<Longrightarrow> intern th n = (r, th)"
  by (cases th) (simp add: intern_def)

lemma interns_length: "length (fst (interns th ns)) = length ns"
  by (induction ns arbitrary: th) (auto simp: Let_def)

lemma interns_final:
  "i < length ns \<Longrightarrow> dict (fst (snd (interns th ns))) (ns ! i) = Some (fst (interns th ns) ! i)"
proof (induction ns arbitrary: th i)
  case Nil
  then show ?case by simp
next
  case (Cons n ns)
  show ?case
  proof (cases i)
    case 0
    from interns_keeps[of "snd (intern th n)" n "fst (intern th n)" ns] intern_entry[of th n]
    show ?thesis using 0 by (simp add: Let_def)
  next
    case (Suc j)
    with Cons.prems have "j < length ns" by simp
    from Cons.IH[OF this, of "snd (intern th n)"] Suc show ?thesis
      by (simp add: Let_def)
  qed
qed

text \<open>
  Conversely, different payloads get different objects, in every table that maps
  different payloads to different objects of the heap, as the empty table does and as
  \<open>intern\<close> preserves. Identity of symbols is equality of payloads, which is why a
  symbol token can be represented by its payload.
\<close>

definition table_ok :: "'o PSSymbolTable \<times> 'o list \<Rightarrow> bool" where
  "table_ok th =
     ((\<forall>n r. dict (fst th) n = Some r \<longrightarrow> r < length (snd th))
      \<and> (\<forall>n m r. dict (fst th) n = Some r \<and> dict (fst th) m = Some r \<longrightarrow> n = m))"

lemma table_ok_init: "table_ok (PSSymbolTable_init k, [])"
  by (simp add: table_ok_def PSSymbolTable_init_def)

lemma table_ok_intern: "table_ok th \<Longrightarrow> table_ok (snd (intern th n))"
proof -
  assume ok: "table_ok th"
  obtain t h where th: "th = (t, h)" by (cases th)
  from ok th have b: "\<And>m r. dict t m = Some r \<Longrightarrow> r < length h"
    and i: "\<And>m k r. dict t m = Some r \<Longrightarrow> dict t k = Some r \<Longrightarrow> m = k"
    unfolding table_ok_def by auto
  show ?thesis
  proof (cases "dict t n")
    case (Some r)
    with ok th show ?thesis by (simp add: intern_def)
  next
    case None
    have "r < Suc (length h)" if "dict t m = Some r" for m r
      using b[OF that] by simp
    moreover have "r \<noteq> length h" if "dict t m = Some r" for m r
      using b[OF that] by simp
    ultimately show ?thesis
      using None th i by (auto simp: table_ok_def intern_def Let_def)
  qed
qed

lemma table_ok_interns: "table_ok th \<Longrightarrow> table_ok (snd (interns th ns))"
  by (induction ns arbitrary: th) (simp_all add: Let_def table_ok_intern)

lemma interns_distinct:
  assumes "table_ok th" and "i < length ns" and "j < length ns" and "ns ! i \<noteq> ns ! j"
  shows "fst (interns th ns) ! i \<noteq> fst (interns th ns) ! j"
proof
  assume e: "fst (interns th ns) ! i = fst (interns th ns) ! j"
  from interns_final[OF assms(2), of th] interns_final[OF assms(3), of th] e
  have "dict (fst (snd (interns th ns))) (ns ! i) = Some (fst (interns th ns) ! j)"
    "dict (fst (snd (interns th ns))) (ns ! j) = Some (fst (interns th ns) ! j)"
    by simp_all
  with table_ok_interns[OF assms(1), of ns] have "ns ! i = ns ! j"
    unfolding table_ok_def by blast
  with assms(4) show False by simp
qed

section \<open>Dictionary construction\<close>

text \<open>
  Two readings of which value a key gets, both as lists in item order: the values of
  all pairs whose key renders as \<open>n\<close>, and the values of those pairs among them whose
  value is not \<open>None\<close> (the pairs the comprehension keeps).
\<close>

fun kept_values :: "bool \<Rightarrow> (obj \<Rightarrow> string) \<Rightarrow> string \<Rightarrow> obj list list \<Rightarrow> obj list" where
  "kept_values strict py_str n [] = []"
| "kept_values strict py_str n (w # ws) =
     (case w of
        [k, v] \<Rightarrow> if v \<noteq> PyNone \<and> literal_name strict py_str k = Inr n
                  then v # kept_values strict py_str n ws
                  else kept_values strict py_str n ws
      | _ \<Rightarrow> kept_values strict py_str n ws)"

fun occurrence_values :: "bool \<Rightarrow> (obj \<Rightarrow> string) \<Rightarrow> string \<Rightarrow> obj list list \<Rightarrow> obj list" where
  "occurrence_values strict py_str n [] = []"
| "occurrence_values strict py_str n (w # ws) =
     (case w of
        [k, v] \<Rightarrow> if literal_name strict py_str k = Inr n
                  then v # occurrence_values strict py_str n ws
                  else occurrence_values strict py_str n ws
      | _ \<Rightarrow> occurrence_values strict py_str n ws)"

definition last_option :: "'a list \<Rightarrow> 'a option" where
  "last_option xs = (if xs = [] then None else Some (last xs))"

lemma map_of_update: "map_of (AList.update k v d) n = (if n = k then Some v else map_of d n)"
  by (simp add: update_Some_unfold update_conv)

lemma dict_comprehension_lookup:
  "dict_comprehension strict py_str ws d = Inr d' \<Longrightarrow>
     map_of d' n = (case last_option (kept_values strict py_str n ws) of None \<Rightarrow> map_of d n | Some v \<Rightarrow> Some v)"
proof (induction ws arbitrary: d)
  case Nil
  then show ?case by (simp add: last_option_def)
next
  case (Cons w ws)
  show ?case
  proof (cases w)
    case Nil
    with Cons.prems show ?thesis by simp
  next
    case (Cons k r)
    note w1 = this
    show ?thesis
    proof (cases r)
      case Nil
      with Cons.prems w1 show ?thesis by simp
    next
      case (Cons v r')
      note w2 = this
      show ?thesis
      proof (cases r')
        case (Cons a b)
        with Cons.prems w1 w2 show ?thesis by simp
      next
        case Nil
        then have w: "w = [k, v]" using w1 w2 by simp
        show ?thesis
        proof (cases "v = PyNone")
          case True
          with Cons.prems w have "dict_comprehension strict py_str ws d = Inr d'" by simp
          from Cons.IH[OF this] True w show ?thesis by simp
        next
          case False
          then obtain key where key: "literal_name strict py_str k = Inr key"
            using Cons.prems w by (cases "literal_name strict py_str k") auto
          with Cons.prems w False
          have "dict_comprehension strict py_str ws (AList.update key v d) = Inr d'" by simp
          from Cons.IH[OF this] w False key show ?thesis
            by (auto simp: last_option_def map_of_update split: if_splits)
        qed
      qed
    qed
  qed
qed

lemma dict_comprehension_distinct:
  "dict_comprehension strict py_str ws d = Inr d' \<Longrightarrow> distinct (map fst d) \<Longrightarrow> distinct (map fst d')"
proof (induction ws arbitrary: d)
  case Nil
  then show ?case by simp
next
  case (Cons w ws)
  then show ?case
    by (auto split: list.splits if_splits sum.splits simp: distinct_update)
qed

lemma dict_comprehension_error:
  "dict_comprehension strict py_str ws d = Inl e \<Longrightarrow> e = ValueError \<or> (e = PSTypeError \<and> strict)"
proof (induction ws arbitrary: d)
  case Nil
  then show ?case by simp
next
  case (Cons w ws)
  then show ?case
    by (auto simp: literal_name_def split: list.splits if_splits sum.splits obj.splits token.splits name.splits)
qed

section \<open>Hexadecimal strings\<close>

lemma HEX_PAIR_sub_even:
  "list_all HEX a \<Longrightarrow> even (length a) \<Longrightarrow>
     HEX_PAIR_sub (a @ b) = (case HEX_PAIR_sub b of None \<Rightarrow> None | Some y \<Rightarrow> Some (the (HEX_PAIR_sub a) @ y))
     \<and> HEX_PAIR_sub a \<noteq> None"
proof (induction a rule: HEX_PAIR_sub.induct)
  case 1
  then show ?case by (simp split: option.splits)
next
  case (2 a)
  then show ?case by simp
next
  case (3 a b r)
  then show ?case by (auto split: option.splits)
qed

lemma digit_val_0: "digit_val CHR ''0'' = 0"
  by (simp add: digit_val_def isdigit_def)

lemma HEX_0: "HEX CHR ''0''"
  by (simp add: HEX_def)

lemma HEX_not_LF: "HEX c \<Longrightarrow> c \<noteq> CHR 0x0A"
  by (auto simp: HEX_def)

lemma hex_odd_low_nibble:
  assumes "list_all HEX a" "even (length a)" "HEX d"
  shows "HEX_PAIR_sub (a @ [d]) = HEX_PAIR_sub (a @ [CHR ''0'', d])"
    and "HEX_PAIR_sub (a @ [d]) = Some (the (HEX_PAIR_sub a) @ [char_of (digit_val d)])"
  using HEX_PAIR_sub_even[OF assms(1,2), of "[d]"] HEX_PAIR_sub_even[OF assms(1,2), of "[CHR ''0'', d]"] assms(3)
  by (auto simp: digit_val_0 HEX_0 dest: HEX_not_LF)

section \<open>No token is the operator of a single closing angle bracket\<close>

text \<open>
  The invariant: no pending token is the keyword \<open>>\<close>, and in the state
  \<open>_parse_keyword\<close> the accumulator starts with a letter.
\<close>

definition no_gt :: "'a PSBaseParser_scheme \<Rightarrow> bool" where
  "no_gt p =
     (list_all (\<lambda>pt. snd pt \<noteq> PSKeyword ''>'') (tokens p)
      \<and> (if parse1 p = P_keyword then curtoken p \<noteq> [] \<and> isalpha (hd (curtoken p)) else True))"

lemma not_alpha_gt: "\<not> isalpha CHR ''>''"
  by (simp add: isalpha_def)

lemma bytes_isalpha_hd: "bytes_isalpha c \<Longrightarrow> c \<noteq> [] \<and> isalpha (hd c)"
  by (cases c) (auto simp: bytes_isalpha_def)

lemma isalpha_not_gt: "c \<noteq> [] \<Longrightarrow> isalpha (hd c) \<Longrightarrow> c @ x \<noteq> ''>''"
  by (cases c) (auto simp: not_alpha_gt)

lemma main_no_gt: "parse_main p s i = (i', p') \<Longrightarrow> no_gt p \<Longrightarrow> parse1 p = P_main \<Longrightarrow> no_gt p'"
  by (auto simp: parse_main_def add_token_def Let_def no_gt_def split: option.splits if_splits
      dest: bytes_isalpha_hd)

lemma keyword_no_gt: "parse_keyword p s i = (i', p') \<Longrightarrow> no_gt p \<Longrightarrow> parse1 p = P_keyword \<Longrightarrow> no_gt p'"
  by (auto simp: parse_keyword_def add_token_def Let_def no_gt_def isalpha_not_gt
      split: option.splits if_splits)

lemma others_no_gt:
  "parse_comment p s i = (i', p') \<Longrightarrow> no_gt p \<Longrightarrow> parse1 p = P_comment \<Longrightarrow> no_gt p'"
  "parse_literal p s i = (i', p') \<Longrightarrow> no_gt p \<Longrightarrow> parse1 p = P_literal \<Longrightarrow> no_gt p'"
  "parse_literal_hex p s i = (i', p') \<Longrightarrow> no_gt p \<Longrightarrow> parse1 p = P_literal_hex \<Longrightarrow> no_gt p'"
  "parse_number p s i = (i', p') \<Longrightarrow> no_gt p \<Longrightarrow> parse1 p = P_number \<Longrightarrow> no_gt p'"
  "parse_float p s i = (i', p') \<Longrightarrow> no_gt p \<Longrightarrow> parse1 p = P_float \<Longrightarrow> no_gt p'"
  "parse_string p s i = (i', p') \<Longrightarrow> no_gt p \<Longrightarrow> parse1 p = P_string \<Longrightarrow> no_gt p'"
  "parse_string_1 p s i = (r, p') \<Longrightarrow> no_gt p \<Longrightarrow> parse1 p = P_string_1 \<Longrightarrow> no_gt p'"
  "parse_wopen p s i = (i', p') \<Longrightarrow> no_gt p \<Longrightarrow> parse1 p = P_wopen \<Longrightarrow> no_gt p'"
  "parse_wclose p s i = (i', p') \<Longrightarrow> no_gt p \<Longrightarrow> parse1 p = P_wclose \<Longrightarrow> no_gt p'"
  "parse_hexstring p s i = (r, p') \<Longrightarrow> no_gt p \<Longrightarrow> parse1 p = P_hexstring \<Longrightarrow> no_gt p'"
  by (auto simp: parse_comment_def parse_literal_def parse_literal_hex_def parse_number_def
      parse_float_def parse_string_def parse_string_1_def parse_wopen_def parse_wclose_def
      parse_hexstring_def add_token_def Let_def no_gt_def
      split: option.splits if_splits)

lemma ok_eq2: "ok x = (r, p') \<longleftrightarrow> (\<exists>i. r = Inr i \<and> x = (i, p'))"
  by (cases x) (auto simp: ok_def)

lemma call_parse1_no_gt: "call_parse1 p s i = (r, p') \<Longrightarrow> no_gt p \<Longrightarrow> no_gt p'"
  by (cases "parse1 p")
     (auto simp: call_parse1_def ok_eq2 intro: main_no_gt keyword_no_gt others_no_gt)

lemma fillbuf_no_gt: "fillbuf p = (r, p') \<Longrightarrow> no_gt p \<Longrightarrow> no_gt p'"
  by (auto simp: fillbuf_def Let_def no_gt_def split: if_splits)

lemma nexttoken_loop_no_gt:
  assumes "nexttoken_loop p = (r, p')"
  shows "no_gt p \<longrightarrow> no_gt p'"
proof (rule nexttoken_loop_rel[where R = "\<lambda>p p'. no_gt p \<longrightarrow> no_gt p'", OF _ _ _ _ _ _ assms])
  show "no_gt p \<longrightarrow> no_gt p" for p :: "'a PSBaseParser_scheme" by simp
  show "no_gt p \<longrightarrow> no_gt q \<Longrightarrow> no_gt q \<longrightarrow> no_gt r \<Longrightarrow> no_gt p \<longrightarrow> no_gt r"
    for p q r :: "'a PSBaseParser_scheme" by simp
  show "fillbuf p = (r, p1) \<Longrightarrow> no_gt p \<longrightarrow> no_gt p1" for p :: "'a PSBaseParser_scheme" and r p1
    using fillbuf_no_gt by blast
  show "call_parse1 p s i = (r, p2) \<Longrightarrow> no_gt p \<longrightarrow> no_gt p2" for p :: "'a PSBaseParser_scheme" and s i r p2
    using call_parse1_no_gt by blast
  show "no_gt p \<longrightarrow> no_gt (p\<lparr>charpos := i\<rparr>)" for p :: "'a PSBaseParser_scheme" and i
    by (simp add: no_gt_def)
  show "no_gt p \<longrightarrow> no_gt (p\<lparr>eof := True\<rparr>)" for p :: "'a PSBaseParser_scheme"
    by (simp add: no_gt_def)
qed

lemma nexttoken_no_gt:
  assumes "nexttoken p = (Inr t, p')" and "no_gt p"
  shows "snd t \<noteq> PSKeyword ''>'' \<and> no_gt p'"
proof -
  obtain lr p1 where l: "nexttoken_loop p = (lr, p1)" by (cases "nexttoken_loop p")
  from nexttoken_loop_no_gt[OF l] assms(2) have "no_gt p1" by simp
  with assms(1) l show ?thesis
    by (cases lr; cases "tokens p1") (auto simp: nexttoken_def no_gt_def split: if_splits)
qed

lemma tokenize_no_gt: "no_gt p \<Longrightarrow> list_all (\<lambda>pt. snd pt \<noteq> PSKeyword ''>'') (fst (tokenize p))"
proof (induction p rule: tokenize.induct)
  case (1 p)
  obtain r p1 where n: "nexttoken p = (r, p1)" by (cases "nexttoken p")
  show ?case
  proof (cases r)
    case (Inl e)
    with n show ?thesis by (simp add: tokenize_raise)
  next
    case (Inr t)
    from nexttoken_no_gt[OF n[unfolded Inr] "1.prems"] have t: "snd t \<noteq> PSKeyword ''>''" and i: "no_gt p1"
      by simp_all
    from "1.IH"[OF n[symmetric] Inr i] t show ?thesis
      by (simp add: tokenize_token[OF n[unfolded Inr]])
  qed
qed

lemma init_no_gt: "no_gt (PSBaseParser_init B)"
  by (simp add: no_gt_def PSBaseParser_init_def seek_def)

lemma seek_no_gt: "no_gt (seek p pos)"
  by (simp add: no_gt_def seek_def)

section \<open>Runs that differ only in dead attributes\<close>

text \<open>
  \<open>seek\<close> resets every field of the tokenizer but \<open>paren\<close>, \<open>oct\<close> and \<open>hex\<close>.
  Each of these is assigned on entry to the states that read it, so two parsers that
  agree on everything else, and on each of the three while a state that reads it is
  active, produce the same results and stay so related.
\<close>

definition sim :: "'a PSBaseParser_scheme \<Rightarrow> 'a PSBaseParser_scheme \<Rightarrow> bool" where
  "sim p q =
     (fp_data q = fp_data p \<and> fp_pos q = fp_pos p \<and> bufpos q = bufpos p \<and> buf q = buf p
      \<and> charpos q = charpos p \<and> parse1 q = parse1 p \<and> curtoken q = curtoken p
      \<and> curtokenpos q = curtokenpos p \<and> tokens q = tokens p \<and> eof q = eof p
      \<and> PSBaseParser.more q = PSBaseParser.more p
      \<and> (if parse1 p = P_string \<or> parse1 p = P_string_1 then paren q = paren p else True)
      \<and> (if parse1 p = P_string_1 then oct q = oct p else True)
      \<and> (if parse1 p = P_literal_hex then hex q = hex p else True))"

definition sim_res :: "'r \<times> 'a PSBaseParser_scheme \<Rightarrow> 'r \<times> 'a PSBaseParser_scheme \<Rightarrow> bool" where
  "sim_res x y = (fst y = fst x \<and> sim (snd x) (snd y))"

lemma sim_main: "sim p q \<Longrightarrow> parse1 p = P_main \<Longrightarrow> sim_res (parse_main p s i) (parse_main q s i)"
  by (auto simp: sim_res_def sim_def parse_main_def add_token_def Let_def split: option.splits)

lemma sim_comment: "sim p q \<Longrightarrow> parse1 p = P_comment \<Longrightarrow> sim_res (parse_comment p s i) (parse_comment q s i)"
  by (auto simp: sim_res_def sim_def parse_comment_def add_token_def Let_def split: option.splits)

lemma sim_literal: "sim p q \<Longrightarrow> parse1 p = P_literal \<Longrightarrow> sim_res (parse_literal p s i) (parse_literal q s i)"
  by (auto simp: sim_res_def sim_def parse_literal_def add_token_def Let_def split: option.splits)

lemma sim_literal_hex: "sim p q \<Longrightarrow> parse1 p = P_literal_hex \<Longrightarrow> sim_res (parse_literal_hex p s i) (parse_literal_hex q s i)"
  by (auto simp: sim_res_def sim_def parse_literal_hex_def add_token_def Let_def split: option.splits)

lemma sim_number: "sim p q \<Longrightarrow> parse1 p = P_number \<Longrightarrow> sim_res (parse_number p s i) (parse_number q s i)"
  by (auto simp: sim_res_def sim_def parse_number_def add_token_def Let_def split: option.splits)

lemma sim_float: "sim p q \<Longrightarrow> parse1 p = P_float \<Longrightarrow> sim_res (parse_float p s i) (parse_float q s i)"
  by (auto simp: sim_res_def sim_def parse_float_def add_token_def Let_def split: option.splits)

lemma sim_keyword: "sim p q \<Longrightarrow> parse1 p = P_keyword \<Longrightarrow> sim_res (parse_keyword p s i) (parse_keyword q s i)"
  by (auto simp: sim_res_def sim_def parse_keyword_def add_token_def Let_def split: option.splits)

lemma sim_string: "sim p q \<Longrightarrow> parse1 p = P_string \<Longrightarrow> sim_res (parse_string p s i) (parse_string q s i)"
  by (auto simp: sim_res_def sim_def parse_string_def add_token_def Let_def split: option.splits)

lemma sim_string_1: "sim p q \<Longrightarrow> parse1 p = P_string_1 \<Longrightarrow> sim_res (parse_string_1 p s i) (parse_string_1 q s i)"
  by (auto simp: sim_res_def sim_def parse_string_1_def add_token_def Let_def split: option.splits)

lemma sim_wopen: "sim p q \<Longrightarrow> parse1 p = P_wopen \<Longrightarrow> sim_res (parse_wopen p s i) (parse_wopen q s i)"
  by (auto simp: sim_res_def sim_def parse_wopen_def add_token_def Let_def split: option.splits)

lemma sim_wclose: "sim p q \<Longrightarrow> parse1 p = P_wclose \<Longrightarrow> sim_res (parse_wclose p s i) (parse_wclose q s i)"
  by (auto simp: sim_res_def sim_def parse_wclose_def add_token_def Let_def split: option.splits)

lemma sim_hexstring: "sim p q \<Longrightarrow> parse1 p = P_hexstring \<Longrightarrow> sim_res (parse_hexstring p s i) (parse_hexstring q s i)"
  by (auto simp: sim_res_def sim_def parse_hexstring_def add_token_def Let_def split: option.splits)

lemma sim_res_ok: "sim_res x y \<Longrightarrow> sim_res (ok x) (ok y)"
  by (simp add: sim_res_def ok_def)

lemma sim_call_parse1: "sim p q \<Longrightarrow> sim_res (call_parse1 p s i) (call_parse1 q s i)"
proof -
  assume s: "sim p q"
  then have e: "parse1 q = parse1 p" by (simp add: sim_def)
  show ?thesis
    by (cases "parse1 p")
       (simp_all add: call_parse1_def e sim_res_ok s sim_main sim_comment sim_literal sim_literal_hex
          sim_number sim_float sim_keyword sim_string sim_string_1 sim_wopen sim_wclose sim_hexstring)
qed

lemma sim_fillbuf: "sim p q \<Longrightarrow> sim_res (fillbuf p) (fillbuf q)"
  by (auto simp: sim_res_def sim_def fillbuf_def Let_def)

lemma sim_charpos: "sim p q \<Longrightarrow> sim (p\<lparr>charpos := i\<rparr>) (q\<lparr>charpos := i\<rparr>)"
  by (simp add: sim_def)

lemma sim_charpos_eof: "sim p q \<Longrightarrow> sim (p\<lparr>charpos := i, eof := True\<rparr>) (q\<lparr>charpos := i, eof := True\<rparr>)"
  by (simp add: sim_def)

lemma sim_tokens: "sim p q \<Longrightarrow> tokens q = tokens p"
  by (simp add: sim_def)

lemma sim_nexttoken_loop: "sim p q \<Longrightarrow> sim_res (nexttoken_loop p) (nexttoken_loop q)"
proof (induction p arbitrary: q rule: nexttoken_loop_induct)
  case (loop p)
  note tk = sim_tokens[OF loop.prems]
  show ?case
  proof (cases "tokens p = []")
    case False
    with tk loop.prems show ?thesis by (simp add: nexttoken_loop_done sim_res_def)
  next
    case True
    obtain fr p1 where f: "fillbuf p = (fr, p1)" by (cases "fillbuf p")
    obtain q1 where fq: "fillbuf q = (fr, q1)" and s1: "sim p1 q1"
      using sim_fillbuf[OF loop.prems] f by (cases "fillbuf q") (auto simp: sim_res_def)
    have b1: "buf q1 = buf p1" "charpos q1 = charpos p1" using s1 by (simp_all add: sim_def)
    show ?thesis
    proof (cases fr)
      case (Inl e)
      obtain cr p2 where c: "call_parse1 p1 [CHR 0x0A] 0 = (cr, p2)"
        by (cases "call_parse1 p1 [CHR 0x0A] 0")
      obtain q2 where cq: "call_parse1 q1 [CHR 0x0A] 0 = (cr, q2)" and s2: "sim p2 q2"
        using sim_call_parse1[OF s1, of "[CHR 0x0A]" 0] c
        by (cases "call_parse1 q1 [CHR 0x0A] 0") (auto simp: sim_res_def)
      show ?thesis
      proof (cases cr)
        case (Inl e')
        with True tk f fq \<open>fr = Inl e\<close> c cq s2 show ?thesis
          by (simp add: nexttoken_loop_eof sim_res_def)
      next
        case (Inr i)
        from sim_charpos_eof[OF s2, of i] sim_tokens[OF s2]
        show ?thesis using True tk f fq \<open>fr = Inl e\<close> c cq Inr
          by (simp add: nexttoken_loop_eof sim_res_def Let_def)
      qed
    next
      case (Inr u)
      obtain cr p2 where c: "call_parse1 p1 (buf p1) (charpos p1) = (cr, p2)"
        by (cases "call_parse1 p1 (buf p1) (charpos p1)")
      obtain q2 where cq: "call_parse1 q1 (buf q1) (charpos q1) = (cr, q2)" and s2: "sim p2 q2"
        using sim_call_parse1[OF s1, of "buf p1" "charpos p1"] c b1
        by (cases "call_parse1 q1 (buf q1) (charpos q1)") (auto simp: sim_res_def)
      show ?thesis
      proof (cases cr)
        case (Inl e)
        with True tk f fq Inr c cq s2 show ?thesis
          by (simp add: nexttoken_loop_raise sim_res_def)
      next
        case (Inr i)
        from loop.IH[OF True f[unfolded \<open>fr = Inr u\<close>] c[unfolded Inr] sim_charpos[OF s2, of i]]
        show ?thesis
          using True tk f fq \<open>fr = Inr u\<close> c cq Inr
          by (simp add: nexttoken_loop_step[of p _ _ i p2] nexttoken_loop_step[of q _ _ i q2])
      qed
    qed
  qed
qed

lemma sim_nexttoken: "sim p q \<Longrightarrow> sim_res (nexttoken p) (nexttoken q)"
proof -
  assume s: "sim p q"
  obtain lr p1 where l: "nexttoken_loop p = (lr, p1)" by (cases "nexttoken_loop p")
  obtain q1 where lq: "nexttoken_loop q = (lr, q1)" and s1: "sim p1 q1"
    using sim_nexttoken_loop[OF s] l by (cases "nexttoken_loop q") (auto simp: sim_res_def)
  have e: "eof q = eof p" using s by (simp add: sim_def)
  have t: "tokens q1 = tokens p1" using s1 by (simp add: sim_def)
  have u: "sim (p1\<lparr>tokens := ts\<rparr>) (q1\<lparr>tokens := ts\<rparr>)" for ts using s1 by (simp add: sim_def)
  show ?thesis
    using s s1 u by (cases lr; cases "tokens p1") (auto simp: nexttoken_def l lq e t sim_res_def)
qed

lemma sim_tokenize:
  "sim p q \<Longrightarrow> fst (tokenize q) = fst (tokenize p) \<and> fst (snd (tokenize q)) = fst (snd (tokenize p))
     \<and> sim (snd (snd (tokenize p))) (snd (snd (tokenize q)))"
proof (induction p arbitrary: q rule: tokenize.induct)
  case (1 p)
  obtain r p1 where n: "nexttoken p = (r, p1)" by (cases "nexttoken p")
  obtain q1 where nq: "nexttoken q = (r, q1)" and s1: "sim p1 q1"
    using sim_nexttoken[OF "1.prems"] n by (cases "nexttoken q") (auto simp: sim_res_def)
  show ?case
  proof (cases r)
    case (Inl e)
    with n nq s1 show ?thesis by (simp add: tokenize_raise)
  next
    case (Inr t)
    from "1.IH"[OF n[symmetric] Inr s1] show ?thesis
      by (simp add: tokenize_token[OF n[unfolded Inr]] tokenize_token[OF nq[unfolded Inr]])
  qed
qed

section \<open>The stream content is never changed, and seek against a fresh parser\<close>

lemma call_parse1_fp_data: "call_parse1 p s i = (r, p') \<Longrightarrow> fp_data p' = fp_data p"
  by (cases "parse1 p")
   (auto simp: call_parse1_def ok_def parse_main_def parse_comment_def parse_literal_def
      parse_literal_hex_def parse_number_def parse_float_def parse_keyword_def parse_string_def
      parse_string_1_def parse_wopen_def parse_wclose_def parse_hexstring_def add_token_def Let_def
      split: option.splits if_splits)

lemma fillbuf_fp_data: "fillbuf p = (r, p') \<Longrightarrow> fp_data p' = fp_data p"
  by (auto simp: fillbuf_def Let_def split: if_splits)

lemma nexttoken_loop_fp_data:
  assumes "nexttoken_loop p = (r, p')"
  shows "fp_data p' = fp_data p"
proof (rule nexttoken_loop_rel[where R = "\<lambda>p p'. fp_data p' = fp_data p", OF _ _ _ _ _ _ assms])
  show "fp_data p = fp_data p" for p :: "'a PSBaseParser_scheme" by simp
  show "fp_data q = fp_data p \<Longrightarrow> fp_data r = fp_data q \<Longrightarrow> fp_data r = fp_data p"
    for p q r :: "'a PSBaseParser_scheme" by simp
  show "fillbuf p = (r, p1) \<Longrightarrow> fp_data p1 = fp_data p" for p :: "'a PSBaseParser_scheme" and r p1
    by (rule fillbuf_fp_data)
  show "call_parse1 p s i = (r, p2) \<Longrightarrow> fp_data p2 = fp_data p"
    for p :: "'a PSBaseParser_scheme" and s i r p2
    by (rule call_parse1_fp_data)
  show "fp_data (p\<lparr>charpos := i\<rparr>) = fp_data p" for p :: "'a PSBaseParser_scheme" and i by simp
  show "fp_data (p\<lparr>eof := True\<rparr>) = fp_data p" for p :: "'a PSBaseParser_scheme" by simp
qed

lemma nexttoken_fp_data: "nexttoken p = (r, p') \<Longrightarrow> fp_data p' = fp_data p"
proof -
  assume a: "nexttoken p = (r, p')"
  obtain lr p1 where l: "nexttoken_loop p = (lr, p1)" by (cases "nexttoken_loop p")
  from nexttoken_loop_fp_data[OF l] a l show ?thesis
    by (cases lr; cases "tokens p1") (auto simp: nexttoken_def split: if_splits)
qed

lemma tokenize_fp_data: "fp_data (snd (snd (tokenize p))) = fp_data p"
proof (induction p rule: tokenize.induct)
  case (1 p)
  obtain r p1 where n: "nexttoken p = (r, p1)" by (cases "nexttoken p")
  show ?case
  proof (cases r)
    case (Inl e)
    with n nexttoken_fp_data[OF n] show ?thesis by (simp add: tokenize_raise)
  next
    case (Inr t)
    from "1.IH"[OF n[symmetric] Inr] nexttoken_fp_data[OF n] show ?thesis
      by (simp add: tokenize_token[OF n[unfolded Inr]])
  qed
qed

lemma sim_seek_init: "sim (PSBaseParser_init (fp_data p)) (seek p 0)"
  by (simp add: sim_def PSBaseParser_init_def seek_def)

lemma sim_seek_init_stack: "sim (PSStackParser_init (fp_data p)) (PSStackParser_seek p 0)"
  by (cases p) (simp add: sim_def PSStackParser_init_def PSStackParser_seek_def reset_def seek_def)

section \<open>Tokenizing a hexadecimal string across buffer refills\<close>

text \<open>
  The bytes not yet consumed are the rest of the buffer followed by the rest of the
  stream. \<open>fillbuf\<close> does not change them, so the handlers can be followed on an input
  of any length, whatever the number of refills.
\<close>

definition unread :: "'a PSBaseParser_scheme \<Rightarrow> string" where
  "unread p = drop (charpos p) (buf p) @ drop (fp_pos p) (fp_data p)"

lemma take_drop_length: "take n xs @ drop (length (take n xs)) xs = xs"
  by (metis append_take_drop_id length_take min.commute take_all_iff drop_all  min_def append_Nil2 nle_le)

lemma fillbuf_unread:
  assumes "fillbuf p = (Inr u, p1)"
  shows "unread p1 = unread p" and "charpos p1 < length (buf p1)"
    and "curtoken p1 = curtoken p" and "parse1 p1 = parse1 p" and "tokens p1 = tokens p"
    and "curtokenpos p1 = curtokenpos p" and "eof p1 = eof p"
  using assms take_drop_length[of BUFSIZ "drop (fp_pos p) (fp_data p)"]
  by (auto simp: fillbuf_def Let_def unread_def add.commute split: if_splits)

lemma fillbuf_fails: "fillbuf p = (Inl e, p1) \<Longrightarrow> unread p = []"
  by (auto simp: fillbuf_def Let_def unread_def BUFSIZ_def split: if_splits)

lemma fillbuf_succeeds: "unread p \<noteq> [] \<Longrightarrow> \<exists>p1. fillbuf p = (Inr (), p1)"
  using fillbuf_fails[of p] by (cases "fillbuf p"; cases "fst (fillbuf p)") auto

lemma split_at_terminator:
  "w @ rest = h @ t # r \<Longrightarrow> list_all (\<lambda>c. \<not> P c) h \<Longrightarrow> P t \<Longrightarrow>
     (if list_ex P w then \<exists>us. w = h @ t # us else \<exists>h'. h = w @ h' \<and> rest = h' @ t # r)"
proof (induction h arbitrary: w)
  case Nil
  then show ?case by (cases w) auto
next
  case (Cons a h0)
  show ?case
  proof (cases w)
    case Nil
    with Cons.prems show ?thesis by simp
  next
    case (Cons b w0)
    with Cons.prems have "w0 @ rest = h0 @ t # r" "list_all (\<lambda>c. \<not> P c) h0" "b = a" "\<not> P a"
      by simp_all
    with Cons.IH[of w0] Cons.prems(3) Cons show ?thesis by auto
  qed
qed

lemma takeWhile_terminator:
  "list_all (\<lambda>c. \<not> P c) h \<Longrightarrow> P t \<Longrightarrow> takeWhile (\<lambda>c. \<not> P c) (h @ t # us) = h"
  by (induction h) auto

lemma search_terminator:
  assumes "drop i s = h @ t # us" and "list_all (\<lambda>c. \<not> P c) h" and "P t"
  shows "search P s i = Some (i + length h)" and "slice s i (i + length h) = h"
  using assms takeWhile_terminator[OF assms(2,3), of us]
  by (auto simp: search_def slice_def list_ex_iff)

lemma search_none: "\<not> list_ex P (drop i s) \<Longrightarrow> search P s i = None"
  by (simp add: search_def)

lemma hexstring_loop:
  assumes "parse1 p = P_hexstring" and "tokens p = []" and "unread p = h @ t # r"
    and "list_all (\<lambda>c. \<not> END_HEX_STRING c) h" and "END_HEX_STRING t"
    and "HEX_PAIR_sub (SPC_sub (curtoken p @ h)) = Some tok"
  shows "\<exists>p'. nexttoken_loop p = (Inr (), p') \<and> tokens p' = [(curtokenpos p, T_bytes tok)]
            \<and> eof p' = eof p"
  using assms
proof (induction p arbitrary: h rule: nexttoken_loop_induct)
  case (loop p)
  from loop.prems(3) have "unread p \<noteq> []" by simp
  then obtain p1 where f: "fillbuf p = (Inr (), p1)" using fillbuf_succeeds by blast
  note fu = fillbuf_unread[OF f]
  define w where "w = drop (charpos p1) (buf p1)"
  define rest where "rest = drop (fp_pos p1) (fp_data p1)"
  have wr: "w @ rest = h @ t # r"
    using fu(1) loop.prems(3) by (simp add: unread_def w_def rest_def)
  note sp = split_at_terminator[OF wr loop.prems(4,5)]
  have st: "parse1 p1 = P_hexstring" using fu(4) loop.prems(1) by simp
  show ?case
  proof (cases "list_ex END_HEX_STRING w")
    case True
    with sp obtain us where w: "drop (charpos p1) (buf p1) = h @ t # us" by (auto simp: w_def)
    note se = search_terminator[OF w loop.prems(4,5)]
    let ?j = "charpos p1 + length h"
    let ?p2 = "(add_token (p1\<lparr>curtoken := curtoken p1 @ h\<rparr>) (T_bytes tok))\<lparr>parse1 := P_main\<rparr>"
    have "parse_hexstring p1 (buf p1) (charpos p1) = (Inr ?j, ?p2)"
      using se loop.prems(6) fu(3) by (simp add: parse_hexstring_def)
    then have c: "call_parse1 p1 (buf p1) (charpos p1) = (Inr ?j, ?p2)"
      using st by (simp add: call_parse1_def)
    have "nexttoken_loop p = nexttoken_loop (?p2\<lparr>charpos := ?j\<rparr>)"
      by (rule nexttoken_loop_step[OF loop.prems(2) f c])
    also have "\<dots> = (Inr (), ?p2\<lparr>charpos := ?j\<rparr>)"
      by (rule nexttoken_loop_done) (simp add: add_token_def)
    finally show ?thesis
      using fu(5,6,7) loop.prems(2) by (simp add: add_token_def)
  next
    case False
    with sp obtain h' where h: "h = w @ h'" and r: "rest = h' @ t # r" by auto
    from False have "search END_HEX_STRING (buf p1) (charpos p1) = None"
      by (simp add: search_none w_def)
    then have "parse_hexstring p1 (buf p1) (charpos p1)
        = (Inr (length (buf p1)), p1\<lparr>curtoken := curtoken p1 @ w\<rparr>)"
      by (simp add: parse_hexstring_def w_def)
    then have c: "call_parse1 p1 (buf p1) (charpos p1)
        = (Inr (length (buf p1)), p1\<lparr>curtoken := curtoken p1 @ w\<rparr>)"
      using st by (simp add: call_parse1_def)
    let ?q = "p1\<lparr>curtoken := curtoken p1 @ w, charpos := length (buf p1)\<rparr>"
    have q1: "parse1 ?q = P_hexstring" using st by simp
    have q2: "tokens ?q = []" using fu(5) loop.prems(2) by simp
    have q3: "unread ?q = h' @ t # r" using r by (simp add: unread_def rest_def)
    have q4: "list_all (\<lambda>c. \<not> END_HEX_STRING c) h'" using loop.prems(4) h by simp
    have q6: "HEX_PAIR_sub (SPC_sub (curtoken ?q @ h')) = Some tok"
      using loop.prems(6) h fu(3) by simp
    from loop.IH[OF loop.prems(2) f c q1 q2 q3 q4 loop.prems(5) q6]
    show ?thesis
      using nexttoken_loop_step[OF loop.prems(2) f c] fu(6,7) by simp
  qed
qed

lemma unread_head:
  assumes "charpos p < length (buf p)" and "unread p = c # x"
  shows "byte_at (buf p) (charpos p) = [c]" and "unread (p\<lparr>charpos := charpos p + 1\<rparr>) = x"
    and "\<exists>us. drop (charpos p) (buf p) = [] @ c # us"
proof -
  from assms(1) obtain b us where d: "drop (charpos p) (buf p) = b # us"
    by (cases "drop (charpos p) (buf p)") auto
  with assms(2) have b: "b = c" and x: "x = us @ drop (fp_pos p) (fp_data p)"
    by (simp_all add: unread_def)
  from d b show "byte_at (buf p) (charpos p) = [c]" by (simp add: byte_at_def)
  from d b show "\<exists>us. drop (charpos p) (buf p) = [] @ c # us" by simp
  have "drop (charpos p + 1) (buf p) = us"
    using d by (metis Suc_eq_plus1 drop_Suc list.sel(3) tl_drop)
  with x show "unread (p\<lparr>charpos := charpos p + 1\<rparr>) = x" by (simp add: unread_def)
qed

lemma NONSPC_lt: "NONSPC CHR ''<''"
  by (simp add: NONSPC_def SPC_def)

lemma main_lt_step:
  assumes "parse1 p = P_main" and "tokens p = []" and "fillbuf p = (Inr (), p1)"
    and "unread p = CHR ''<'' # x"
  shows "\<exists>p'. nexttoken_loop p = nexttoken_loop p' \<and> parse1 p' = P_wopen \<and> tokens p' = []
           \<and> unread p' = x \<and> curtoken p' = [] \<and> curtokenpos p' = bufpos p1 + charpos p1
           \<and> eof p' = eof p"
proof -
  note fu = fillbuf_unread[OF assms(3)]
  from fu(1) assms(4) have u: "unread p1 = CHR ''<'' # x" by simp
  note uh = unread_head[OF fu(2) u]
  from uh(3) obtain us where d: "drop (charpos p1) (buf p1) = [] @ CHR ''<'' # us" by blast
  have se: "search NONSPC (buf p1) (charpos p1) = Some (charpos p1)"
    using search_terminator(1)[OF d, of NONSPC] by (simp add: NONSPC_lt)
  let ?p2 = "p1\<lparr>curtokenpos := bufpos p1 + charpos p1, curtoken := [], parse1 := P_wopen\<rparr>"
  have "parse_main p1 (buf p1) (charpos p1) = (charpos p1 + 1, ?p2)"
    using se uh(1)
    by (simp add: parse_main_def bytes_isdigit_def bytes_isalpha_def isdigit_def isalpha_def)
  then have c: "call_parse1 p1 (buf p1) (charpos p1) = (Inr (charpos p1 + 1), ?p2)"
    using fu(4) assms(1) by (simp add: call_parse1_def ok_def)
  let ?p' = "?p2\<lparr>charpos := charpos p1 + 1\<rparr>"
  have "unread ?p' = x" using uh(2) by (simp add: unread_def)
  with nexttoken_loop_step[OF assms(2,3) c] fu(5,7) assms(2) show ?thesis
    by (intro exI[of _ ?p']) simp
qed

lemma wopen_step:
  assumes "parse1 p = P_wopen" and "tokens p = []" and "unread p = c # x" and "c \<noteq> CHR ''<''"
  shows "\<exists>p'. nexttoken_loop p = nexttoken_loop p' \<and> parse1 p' = P_hexstring \<and> tokens p' = []
           \<and> unread p' = c # x \<and> curtoken p' = curtoken p \<and> curtokenpos p' = curtokenpos p
           \<and> eof p' = eof p"
proof -
  from assms(3) have "unread p \<noteq> []" by simp
  then obtain p1 where f: "fillbuf p = (Inr (), p1)" using fillbuf_succeeds by blast
  note fu = fillbuf_unread[OF f]
  from fu(1) assms(3) have u: "unread p1 = c # x" by simp
  note uh = unread_head[OF fu(2) u]
  let ?p2 = "p1\<lparr>parse1 := P_hexstring\<rparr>"
  have "parse_wopen p1 (buf p1) (charpos p1) = (charpos p1, ?p2)"
    using uh(1) assms(4) by (simp add: parse_wopen_def)
  then have c: "call_parse1 p1 (buf p1) (charpos p1) = (Inr (charpos p1), ?p2)"
    using fu(4) assms(1) by (simp add: call_parse1_def ok_def)
  let ?p' = "?p2\<lparr>charpos := charpos p1\<rparr>"
  have "unread ?p' = c # x" using u by (simp add: unread_def)
  with nexttoken_loop_step[OF assms(2) f c] fu(3,5,6,7) assms(2) show ?thesis
    by (intro exI[of _ ?p']) simp
qed

lemma fillbuf_init:
  "fillbuf (PSBaseParser_init d) = (Inr (), p1) \<Longrightarrow> bufpos p1 = 0 \<and> charpos p1 = 0"
  by (auto simp: fillbuf_def PSBaseParser_init_def seek_def Let_def split: if_splits)

lemma not_END_HEX_STRING_lt: "\<not> END_HEX_STRING c \<Longrightarrow> c \<noteq> CHR ''<''"
  by (auto simp: END_HEX_STRING_def SPC_def HEX_def)

lemma hexstring_nexttoken:
  assumes "h \<noteq> []" and "list_all (\<lambda>c. \<not> END_HEX_STRING c) h" and "END_HEX_STRING t"
    and "HEX_PAIR_sub (SPC_sub h) = Some tok"
  shows "fst (nexttoken (PSBaseParser_init (CHR ''<'' # h @ t # r))) = Inr (0, T_bytes tok)"
proof -
  let ?p0 = "PSBaseParser_init (CHR ''<'' # h @ t # r)"
  have i: "parse1 ?p0 = P_main" "tokens ?p0 = []" "\<not> eof ?p0" "unread ?p0 = CHR ''<'' # h @ t # r"
    by (simp_all add: PSBaseParser_init_def seek_def unread_def)
  from i(4) obtain p1 where f: "fillbuf ?p0 = (Inr (), p1)"
    using fillbuf_succeeds[of ?p0] by auto
  from main_lt_step[OF i(1,2) f i(4)] fillbuf_init[OF f] obtain pa where
    a: "nexttoken_loop ?p0 = nexttoken_loop pa" "parse1 pa = P_wopen" "tokens pa = []"
      "unread pa = h @ t # r" "curtoken pa = []" "curtokenpos pa = 0" "eof pa = eof ?p0"
    by auto
  from assms(1) obtain c x where h: "h = c # x" by (cases h) auto
  with assms(2) have "c \<noteq> CHR ''<''" by (simp add: not_END_HEX_STRING_lt)
  from wopen_step[OF a(2,3) a(4)[unfolded h, simplified] this] obtain pb where
    b: "nexttoken_loop pa = nexttoken_loop pb" "parse1 pb = P_hexstring" "tokens pb = []"
      "unread pb = h @ t # r" "curtoken pb = []" "curtokenpos pb = 0"
    using a(5,6) h by auto
  from hexstring_loop[OF b(2,3,4) assms(2,3)] assms(4) b(5,6) obtain pc where
    c: "nexttoken_loop pb = (Inr (), pc)" "tokens pc = [(0, T_bytes tok)]"
    by auto
  from a(1) b(1) c i(3) show ?thesis by (simp add: nexttoken_def)
qed

section \<open>Octal escapes\<close>

text \<open>
  Three octal digits the first of which is 4 or more spell a value of 256 or more; the
  handler then fails its assertion, whatever the next byte is.
\<close>

lemma oct_high: "a \<in> set ''4567'' \<Longrightarrow> 4 \<le> digit_val a"
  by (auto simp: digit_val_def isdigit_def)

lemma string_1_assertion:
  assumes "oct p = [a, b, c]" and "a \<in> set ''4567''"
  shows "parse_string_1 p s i = (Inl AssertionError, p)"
proof -
  have "int_base 8 [a, b, c] = (digit_val a * 8 + digit_val b) * 8 + digit_val c"
    by (simp add: int_base_def)
  with oct_high[OF assms(2)] have "\<not> int_base 8 (oct p) < 256"
    using assms(1) by simp
  then show ?thesis using assms(1) by (simp add: parse_string_1_def Let_def)
qed

section \<open>A plain PSStackParser returns no object\<close>

text \<open>
  \<open>nextobject\<close> returns only what is in \<open>results\<close>, and only the hooks can put
  anything there. With the \<open>flush\<close> and \<open>do_keyword\<close> of this module the dispatch
  leaves \<open>results\<close> and the tokenizer alone, so a call that starts with empty results
  reads tokens until an error ends it: it always returns, and always with an error.
\<close>

definition tokenizer_eq :: "PSStackParser \<Rightarrow> PSStackParser \<Rightarrow> bool" where
  "tokenizer_eq p p' =
     (eof p' = eof p \<and> remaining p' = remaining p \<and> parse1 p' = parse1 p \<and> tokens p' = tokens p
      \<and> results p' = results p)"

lemma te_start: "tokenizer_eq p (start_type p pos ty)"
  by (simp add: tokenizer_eq_def start_type_def remaining_def)

lemma te_push: "tokenizer_eq p (push p xs)"
  by (simp add: tokenizer_eq_def push_def remaining_def)

lemma te_except: "except_PSTypeError strict e p = (r, p') \<Longrightarrow> tokenizer_eq p p'"
  by (auto simp: except_PSTypeError_def tokenizer_eq_def split: if_splits)

lemma te_end: "end_type p ty = (r, p1) \<Longrightarrow> tokenizer_eq p p1"
  by (cases "last (context p)")
     (auto simp: end_type_def tokenizer_eq_def remaining_def Let_def split: if_splits)

lemma te_trans: "tokenizer_eq p q \<Longrightarrow> tokenizer_eq q r \<Longrightarrow> tokenizer_eq p r"
  by (simp add: tokenizer_eq_def)

lemma te_close:
  assumes "(case end_type p ty of
              (Inr (pos0, objs), p1) \<Rightarrow> (Inr (), push p1 [(pos0, List objs)])
            | (Inl e, p1) \<Rightarrow> except_PSTypeError strict e p1) = (r, p')"
  shows "tokenizer_eq p p'"
proof -
  obtain er p1 where e: "end_type p ty = (er, p1)" by (cases "end_type p ty")
  note a = te_end[OF e]
  show ?thesis
  proof (cases er)
    case (Inl x)
    with assms e have "except_PSTypeError strict x p1 = (r, p')" by simp
    from te_trans[OF a te_except[OF this]] show ?thesis .
  next
    case (Inr y)
    obtain pos0 objs where y: "y = (pos0, objs)" by (cases y)
    with assms e Inr have "p' = push p1 [(pos0, List objs)]" by simp
    with te_trans[OF a te_push] show ?thesis by simp
  qed
qed

lemma te_dict_close:
  assumes "(case end_type p ''d'' of
               (Inr (pos0, objs), p1) \<Rightarrow>
                 if length objs mod 2 \<noteq> 0 then (Inl PSSyntaxError, p1)
                 else
                   (case dict_comprehension strict py_str (choplist 2 objs) [] of
                      Inr d \<Rightarrow> (Inr (), push p1 [(pos0, Dict d)])
                    | Inl e \<Rightarrow> except_PSTypeError strict e p1)
             | (Inl e, p1) \<Rightarrow> except_PSTypeError strict e p1) = (r, p')"
  shows "tokenizer_eq p p'"
proof -
  obtain er p1 where e: "end_type p ''d'' = (er, p1)" by (cases "end_type p ''d''")
  note a = te_end[OF e]
  show ?thesis
  proof (cases er)
    case (Inl x)
    with assms e have "except_PSTypeError strict x p1 = (r, p')" by simp
    from te_trans[OF a te_except[OF this]] show ?thesis .
  next
    case (Inr y)
    obtain pos0 objs where y: "y = (pos0, objs)" by (cases y)
    show ?thesis
    proof (cases "length objs mod 2 \<noteq> 0")
      case True
      with assms e Inr y have "p' = p1" by simp
      with a show ?thesis by simp
    next
      case False
      show ?thesis
      proof (cases "dict_comprehension strict py_str (choplist 2 objs) []")
        case (Inl x)
        with assms e Inr y False have "except_PSTypeError strict x p1 = (r, p')" by simp
        from te_trans[OF a te_except[OF this]] show ?thesis .
      next
        case (Inr d)
        with assms e \<open>er = Inr y\<close> y False have "p' = push p1 [(pos0, Dict d)]" by simp
        with te_trans[OF a te_push] show ?thesis by simp
      qed
    qed
  qed
qed

lemma dispatch_plain:
  assumes "dispatch strict py_str do_keyword p pos token = (r, p')"
  shows "tokenizer_eq p p'"
proof -
  consider (ab) "token = KEYWORD_ARRAY_BEGIN" | (ae) "token = KEYWORD_ARRAY_END"
    | (db) "token = KEYWORD_DICT_BEGIN" | (de) "token = KEYWORD_DICT_END"
    | (pb) "token = KEYWORD_PROC_BEGIN" | (pe) "token = KEYWORD_PROC_END"
    | (kw) kw where "token = PSKeyword kw" "kw \<notin> {''['', '']'', ''<<'', ''>>'', ''{'', ''}''}"
    | (val) "\<And>kw. token \<noteq> PSKeyword kw"
    by (cases token) auto
  then show ?thesis
  proof cases
    case ab
    with assms show ?thesis by (simp add: dispatch_def) (use te_start in blast)
  next
    case ae
    with assms show ?thesis by (simp add: dispatch_def te_close)
  next
    case db
    with assms show ?thesis by (simp add: dispatch_def) (use te_start in blast)
  next
    case de
    with assms show ?thesis by (simp add: dispatch_def te_dict_close)
  next
    case pb
    with assms show ?thesis by (simp add: dispatch_def) (use te_start in blast)
  next
    case pe
    with assms show ?thesis by (simp add: dispatch_def te_close)
  next
    case kw
    with assms show ?thesis by (auto simp: dispatch_def do_keyword_def tokenizer_eq_def)
  next
    case val
    then have "\<forall>kw. token \<noteq> PSKeyword kw" by blast
    with assms have "p' = push p [(pos, Tok token)]" by (cases token) (auto simp: dispatch_def)
    with te_push show ?thesis by simp
  qed
qed

lemma plain_nextobject_raises:
  "results p = [] \<Longrightarrow> \<exists>e p'. nextobject strict py_str flush do_keyword p = Some (Inl e, p')"
proof (induction p rule: wf_induct_rule[OF wf_call_order])
  case (1 p)
  obtain r p1 where n: "nexttoken p = (r, p1)" by (cases "nexttoken p")
  show ?case
  proof (cases r)
    case (Inl e)
    with n "1.prems" show ?thesis by (subst nextobject.simps) simp
  next
    case (Inr t)
    obtain pos token where t: "t = (pos, token)" by (cases t)
    obtain dr p2 where d: "dispatch strict py_str do_keyword p1 pos token = (dr, p2)"
      by (cases "dispatch strict py_str do_keyword p1 pos token")
    note no = nextobject_token[OF "1.prems" n[unfolded Inr t], of strict py_str flush do_keyword]
    show ?thesis
    proof (cases dr)
      case (Inl e)
      with no d show ?thesis by simp
    next
      case (Inr u)
      from nexttoken_order[OF n[unfolded \<open>r = Inr t\<close>]] dispatch_plain[OF d]
      have o: "(p2, p) \<in> call_order"
        by (auto simp: call_order_def tokenizer_eq_def)
      from nexttoken_stack[OF n] dispatch_plain[OF d] "1.prems" have e: "results p2 = []"
        by (simp add: stack_eq_def tokenizer_eq_def)
      have "(if context p2 \<noteq> [] then p2 else flush p2) = p2" by (simp add: flush_def)
      with "1.IH"[OF o e] no d Inr show ?thesis by simp
    qed
  qed
qed

section \<open>The end of the stream\<close>

text \<open>
  When \<open>fillbuf\<close> fails and the handler, run on the one byte \<open>\n\<close>, returns, then
  \<open>nexttoken\<close> raises \<open>PSEOF\<close> if no token is pending and otherwise returns the
  first pending token, with \<open>eof\<close> set in both cases, so that the next call raises
  \<open>PSEOF\<close>.
\<close>

lemma nexttoken_eof_policy:
  assumes "\<not> eof p" and "tokens p = []" and "fillbuf p = (Inl e, p1)"
    and "call_parse1 p1 [CHR 0x0A] 0 = (Inr i, p2)"
  shows "nexttoken p =
           (case tokens p2 of
              [] \<Rightarrow> (Inl PSEOF, p2\<lparr>charpos := i, eof := True\<rparr>)
            | t # ts \<Rightarrow> (Inr t, p2\<lparr>charpos := i, eof := True, tokens := ts\<rparr>))"
    and "fst (nexttoken (snd (nexttoken p))) = Inl PSEOF"
proof -
  show 1: "nexttoken p =
           (case tokens p2 of
              [] \<Rightarrow> (Inl PSEOF, p2\<lparr>charpos := i, eof := True\<rparr>)
            | t # ts \<Rightarrow> (Inr t, p2\<lparr>charpos := i, eof := True, tokens := ts\<rparr>))"
    using assms by (cases "tokens p2") (simp_all add: nexttoken_def nexttoken_loop_eof Let_def)
  show "fst (nexttoken (snd (nexttoken p))) = Inl PSEOF"
    unfolding 1 by (cases "tokens p2") (simp_all add: nexttoken_def)
qed

section \<open>The errors a scan can end with\<close>

text \<open>
  The accumulators hold what their states put there: \<open>hex\<close> holds hexadecimal digits,
  \<open>oct\<close> octal digits, and the accumulator of a hexadecimal string only digits and
  whitespace. So the conversions \<open>int(self.hex, 16)\<close>, \<open>int(self.oct, 8)\<close> and the
  substitution in \<open>_parse_hexstring\<close> never raise \<open>ValueError\<close>, \<open>pop(0)\<close> never
  raises \<open>IndexError\<close>, and a scan from a fresh parser ends with \<open>PSEOF\<close> or with the
  failed assertion of \<open>_parse_string_1\<close>.
\<close>

definition acc_ok :: "'a PSBaseParser_scheme \<Rightarrow> bool" where
  "acc_ok p =
     ((if parse1 p = P_literal_hex then list_all HEX (hex p) else True)
      \<and> (if parse1 p = P_string_1 then list_all OCT_STRING (oct p) else True)
      \<and> (if parse1 p = P_wopen then curtoken p = [] else True)
      \<and> (if parse1 p = P_hexstring then list_all (\<lambda>c. \<not> END_HEX_STRING c) (curtoken p) else True))"

lemma re_match_byte_at: "re_match P (byte_at s i) \<Longrightarrow> list_all P (byte_at s i)"
  by (cases "drop i s") (auto simp: re_match_def byte_at_def)

lemma search_slice_all: "search P s i = Some j \<Longrightarrow> list_all (\<lambda>c. \<not> P c) (slice s i j)"
  by (auto simp: search_slice list_all_iff dest: set_takeWhileD)

lemma search_None_all: "search P s i = None \<Longrightarrow> list_all (\<lambda>c. \<not> P c) (drop i s)"
  using search_None[of P s i] by (simp add: list_all_iff)

lemma HEX_PAIR_sub_total: "list_all HEX x \<Longrightarrow> HEX_PAIR_sub x \<noteq> None"
  by (induction x rule: HEX_PAIR_sub.induct) auto

lemma hexstring_body_decodes:
  "list_all (\<lambda>c. \<not> END_HEX_STRING c) x \<Longrightarrow> HEX_PAIR_sub (SPC_sub x) \<noteq> None"
  by (rule HEX_PAIR_sub_total) (auto simp: SPC_sub_def END_HEX_STRING_def list_all_iff)

lemma acc_ok_handlers:
  "parse_main p s i = (i', p') \<Longrightarrow> parse1 p = P_main \<Longrightarrow> acc_ok p'"
  "parse_comment p s i = (i', p') \<Longrightarrow> parse1 p = P_comment \<Longrightarrow> acc_ok p'"
  "parse_literal p s i = (i', p') \<Longrightarrow> parse1 p = P_literal \<Longrightarrow> acc_ok p'"
  "parse_number p s i = (i', p') \<Longrightarrow> parse1 p = P_number \<Longrightarrow> acc_ok p'"
  "parse_float p s i = (i', p') \<Longrightarrow> parse1 p = P_float \<Longrightarrow> acc_ok p'"
  "parse_keyword p s i = (i', p') \<Longrightarrow> parse1 p = P_keyword \<Longrightarrow> acc_ok p'"
  "parse_string p s i = (i', p') \<Longrightarrow> parse1 p = P_string \<Longrightarrow> acc_ok p'"
  "parse_wclose p s i = (i', p') \<Longrightarrow> parse1 p = P_wclose \<Longrightarrow> acc_ok p'"
  by (auto simp: parse_main_def parse_comment_def parse_literal_def parse_number_def
      parse_float_def parse_keyword_def parse_string_def parse_wclose_def add_token_def
      Let_def acc_ok_def split: option.splits if_splits)

lemma acc_ok_literal_hex:
  "parse_literal_hex p s i = (i', p') \<Longrightarrow> parse1 p = P_literal_hex \<Longrightarrow> acc_ok p \<Longrightarrow> acc_ok p'"
  by (auto simp: parse_literal_hex_def Let_def acc_ok_def dest: re_match_byte_at split: if_splits)

lemma acc_ok_string_1:
  "parse_string_1 p s i = (r, p') \<Longrightarrow> parse1 p = P_string_1 \<Longrightarrow> acc_ok p \<Longrightarrow> acc_ok p'"
  by (auto simp: parse_string_1_def Let_def acc_ok_def dest: re_match_byte_at split: if_splits)

lemma acc_ok_wopen:
  "parse_wopen p s i = (i', p') \<Longrightarrow> parse1 p = P_wopen \<Longrightarrow> acc_ok p \<Longrightarrow> acc_ok p'"
  by (auto simp: parse_wopen_def Let_def acc_ok_def add_token_def split: if_splits)

lemma acc_ok_hexstring:
  "parse_hexstring p s i = (r, p') \<Longrightarrow> parse1 p = P_hexstring \<Longrightarrow> acc_ok p \<Longrightarrow> acc_ok p'"
  by (auto simp: parse_hexstring_def Let_def acc_ok_def add_token_def
      dest: search_None_all search_slice_all split: option.splits if_splits)

lemma acc_ok_call_parse1: "call_parse1 p s i = (r, p') \<Longrightarrow> acc_ok p \<Longrightarrow> acc_ok p'"
  by (cases "parse1 p")
     (auto simp: call_parse1_def ok_eq2
        intro: acc_ok_handlers acc_ok_literal_hex acc_ok_string_1 acc_ok_wopen acc_ok_hexstring)

lemma hexstring_no_ValueError:
  "parse_hexstring p s i = (Inl e, p') \<Longrightarrow> parse1 p = P_hexstring \<Longrightarrow> acc_ok p \<Longrightarrow> False"
proof -
  assume a: "parse_hexstring p s i = (Inl e, p')" "parse1 p = P_hexstring" "acc_ok p"
  then obtain j where j: "search END_HEX_STRING s i = Some j"
    by (cases "search END_HEX_STRING s i") (auto simp: parse_hexstring_def)
  from a(2,3) search_slice_all[OF j]
  have "list_all (\<lambda>c. \<not> END_HEX_STRING c) (curtoken p @ slice s i j)"
    by (simp add: acc_ok_def)
  from hexstring_body_decodes[OF this] a(1) j show False
    by (auto simp: parse_hexstring_def split: option.splits)
qed

lemma call_parse1_errors:
  "call_parse1 p s i = (Inl e, p') \<Longrightarrow> acc_ok p \<Longrightarrow> e = AssertionError"
  by (cases "parse1 p")
     (auto simp: call_parse1_def parse_string_1_def Let_def split: if_splits
        dest: hexstring_no_ValueError)

lemma acc_ok_fillbuf: "fillbuf p = (r, p') \<Longrightarrow> acc_ok p \<Longrightarrow> acc_ok p'"
  by (auto simp: fillbuf_def Let_def acc_ok_def split: if_splits)

definition loop_res_ok :: "(error + unit) \<times> 'a PSBaseParser_scheme \<Rightarrow> bool" where
  "loop_res_ok x =
     (acc_ok (snd x)
      \<and> (case fst x of Inl e \<Rightarrow> e = PSEOF \<or> e = AssertionError | Inr _ \<Rightarrow> tokens (snd x) \<noteq> []))"

lemma nexttoken_loop_errors: "acc_ok p \<Longrightarrow> loop_res_ok (nexttoken_loop p)"
proof (induction p rule: nexttoken_loop_induct)
  case (loop p)
  show ?case
  proof (cases "tokens p = []")
    case False
    with loop.prems show ?thesis by (simp add: nexttoken_loop_done loop_res_ok_def)
  next
    case True
    obtain fr p1 where f: "fillbuf p = (fr, p1)" by (cases "fillbuf p")
    note a1 = acc_ok_fillbuf[OF f loop.prems]
    show ?thesis
    proof (cases fr)
      case (Inl e)
      obtain cr p2 where c: "call_parse1 p1 [CHR 0x0A] 0 = (cr, p2)"
        by (cases "call_parse1 p1 [CHR 0x0A] 0")
      note a2 = acc_ok_call_parse1[OF c a1]
      have a3: "acc_ok (p2\<lparr>charpos := i, eof := True\<rparr>)" for i
        using a2 by (simp add: acc_ok_def)
      show ?thesis
      proof (cases cr)
        case (Inl e')
        with call_parse1_errors[OF c[unfolded Inl] a1] True f \<open>fr = Inl e\<close> c a2 show ?thesis
          by (simp add: nexttoken_loop_eof loop_res_ok_def)
      next
        case (Inr i)
        with True f \<open>fr = Inl e\<close> c a3[of i] show ?thesis
          by (simp add: nexttoken_loop_eof loop_res_ok_def Let_def)
      qed
    next
      case (Inr u)
      obtain cr p2 where c: "call_parse1 p1 (buf p1) (charpos p1) = (cr, p2)"
        by (cases "call_parse1 p1 (buf p1) (charpos p1)")
      note a2 = acc_ok_call_parse1[OF c a1]
      show ?thesis
      proof (cases cr)
        case (Inl e)
        with call_parse1_errors[OF c[unfolded Inl] a1] True f Inr c a2 show ?thesis
          by (simp add: nexttoken_loop_raise loop_res_ok_def)
      next
        case (Inr i)
        have "acc_ok (p2\<lparr>charpos := i\<rparr>)" using a2 by (simp add: acc_ok_def)
        from loop.IH[OF True f[unfolded \<open>fr = Inr u\<close>] c[unfolded Inr] this]
        show ?thesis using True f \<open>fr = Inr u\<close> c Inr by (simp add: nexttoken_loop_step)
      qed
    qed
  qed
qed

lemma nexttoken_errors:
  assumes "acc_ok p" and "nexttoken p = (r, p')"
  shows "acc_ok p'" and "r = Inl e \<Longrightarrow> e = PSEOF \<or> e = AssertionError"
proof -
  obtain lr p1 where l: "nexttoken_loop p = (lr, p1)" by (cases "nexttoken_loop p")
  from nexttoken_loop_errors[OF assms(1)] l
  have ok: "acc_ok p1" and res: "case lr of Inl e \<Rightarrow> e = PSEOF \<or> e = AssertionError | Inr _ \<Rightarrow> tokens p1 \<noteq> []"
    by (cases lr; simp add: loop_res_ok_def)+
  have t: "acc_ok (p1\<lparr>tokens := ts\<rparr>)" for ts using ok by (simp add: acc_ok_def)
  from assms l ok t show "acc_ok p'"
    by (cases lr; cases "tokens p1") (auto simp: nexttoken_def split: if_splits)
  from assms(2) l res show "r = Inl e \<Longrightarrow> e = PSEOF \<or> e = AssertionError"
    by (cases lr; cases "tokens p1") (auto simp: nexttoken_def split: if_splits)
qed

lemma acc_ok_init: "acc_ok (PSBaseParser_init B)"
  by (simp add: acc_ok_def PSBaseParser_init_def seek_def)

lemma tokenize_errors:
  "acc_ok p \<Longrightarrow> fst (snd (tokenize p)) = PSEOF \<or> fst (snd (tokenize p)) = AssertionError"
proof (induction p rule: tokenize.induct)
  case (1 p)
  obtain r p1 where n: "nexttoken p = (r, p1)" by (cases "nexttoken p")
  note e = nexttoken_errors[OF "1.prems" n]
  show ?case
  proof (cases r)
    case (Inl x)
    with e(2) n show ?thesis by (simp add: tokenize_raise)
  next
    case (Inr t)
    from "1.IH"[OF n[symmetric] Inr e(1)] show ?thesis
      by (simp add: tokenize_token[OF n[unfolded Inr]])
  qed
qed

section \<open>Hooks and states used in the examples\<close>

text \<open>
  The usual override of \<open>flush\<close> in subclasses: \<open>self.add_results(*self.popall())\<close>.
\<close>

definition flush_add_results :: "PSStackParser \<Rightarrow> PSStackParser" where
  "flush_add_results p = (case popall p of (objs, p1) \<Rightarrow> add_results p1 objs)"

text \<open>A stand-in for \<open>str\<close> in examples whose keys are all names, where it is never called.\<close>

definition no_str :: "obj \<Rightarrow> string" where
  "no_str x = ''?''"

text \<open>
  A parser over the given bytes with one builder of kind \<open>ty\<close> open since offset 0 and
  the given items collected.
\<close>

definition in_builder :: "string \<Rightarrow> string option \<Rightarrow> (nat \<times> obj) list \<Rightarrow> PSStackParser" where
  "in_builder fp ty items =
     (PSStackParser_init fp)\<lparr>context := [(0, None, [])], curtype := ty, curstack := items\<rparr>"

lemma dispatch_ARRAY_BEGIN:
  "dispatch strict py_str do_kw p pos KEYWORD_ARRAY_BEGIN = (Inr (), start_type p pos ''a'')"
  by (simp add: dispatch_def)

section \<open>The scenarios of the specification on the model\<close>

text \<open>
  The object scenario uses the \<open>flush\<close> that moves the current stack to the results;
  the trailing \<open>]\<close> is dropped without \<open>strict\<close> and is a \<open>PSTypeError\<close> with it.
\<close>

lemma example_tokens:
  "fst (tokenize (PSBaseParser_init ''123 3.14 true /Name (hi) <4869> [1 2]''))
     = [(0, T_int 123), (4, T_float ''3.14''), (9, T_bool True), (14, PSLiteral (Str ''Name'')),
        (20, T_bytes ''hi''), (25, T_bytes ''Hi''), (32, KEYWORD_ARRAY_BEGIN), (33, T_int 1),
        (35, T_int 2), (36, KEYWORD_ARRAY_END)]"
  by code_simp

lemma example_name_hex:
  "fst (tokenize (PSBaseParser_init ''/A#20B'')) = [(0, PSLiteral (Str ''A B''))]"
  by code_simp

lemma example_nested_parens:
  "fst (tokenize (PSBaseParser_init ''( a ( b ) c )'')) = [(0, T_bytes '' a ( b ) c '')]"
  by code_simp

lemma example_line_continuation:
  "fst (tokenize (PSBaseParser_init (''(foo'' @ [CHR 0x5C, CHR 0x0D, CHR 0x0A] @ ''bar)'')))
     = [(0, T_bytes ''foobar'')]"
  by code_simp

lemma example_lone_point:
  "fst (tokenize (PSBaseParser_init ''.'')) = [] \<and> fst (snd (tokenize (PSBaseParser_init ''.''))) = PSEOF"
  by code_simp

lemma example_hex_blanks:
  "fst (tokenize (PSBaseParser_init ''< 0a >'')) = [(0, T_bytes [CHR 0x0A])]"
  by code_simp

lemma example_objects:
  "Option.bind
     (nextobject False no_str flush_add_results do_keyword (PSStackParser_init ''[ 1 2 ] extra ]''))
     (\<lambda>r. map_option fst (nextobject False no_str flush_add_results do_keyword (snd r)))
     = Some (Inl PSEOF)
   \<and> map_option fst
       (nextobject False no_str flush_add_results do_keyword (PSStackParser_init ''[ 1 2 ] extra ]''))
     = Some (Inr (0, List [Tok (T_int 1), Tok (T_int 2)]))
   \<and> map_option fst
       (nextobject True no_str flush_add_results do_keyword (PSStackParser_init ''[ 1 2 ] extra ]''))
     = Some (Inr (0, List [Tok (T_int 1), Tok (T_int 2)]))
   \<and> Option.bind
       (nextobject True no_str flush_add_results do_keyword (PSStackParser_init ''[ 1 2 ] extra ]''))
       (\<lambda>r. map_option fst (nextobject True no_str flush_add_results do_keyword (snd r)))
     = Some (Inl PSTypeError)"
  by code_simp

section \<open>The claims\<close>

text \<open>
  C1. For the input \<open><< /Key 1 /Flag true >>\<close> the parser assembles the
  single Dict \<open>{"Key": 1, "Flag": True}\<close> paired with offset 0 of the opening \<open><<\<close>.
  With the \<open>flush\<close> of this module, which does nothing, the pair stays on the current
  stack, \<open>results\<close> stays empty and the first \<open>nextobject\<close> raises \<open>PSEOF\<close> without
  returning an object. With a \<open>flush\<close> that moves the current stack to the results,
  the first call returns that pair and the second raises \<open>PSEOF\<close>.
\<close>

theorem nextobject_dict_example:
  "map_option (\<lambda>r. (fst r, curstack (snd r), results (snd r), context (snd r)))
      (nextobject strict py_str flush do_kw (PSStackParser_init ''<< /Key 1 /Flag true >>''))
     = Some (Inl PSEOF, [(0, Dict [(''Key'', Tok (T_int 1)), (''Flag'', Tok (T_bool True))])], [], [])
   \<and> Option.bind (nextobject strict py_str flush_add_results do_kw (PSStackParser_init ''<< /Key 1 /Flag true >>''))
        (\<lambda>r1. map_option (\<lambda>r2. (fst r1, fst r2)) (nextobject strict py_str flush_add_results do_kw (snd r1)))
     = Some (Inr (0, Dict [(''Key'', Tok (T_int 1)), (''Flag'', Tok (T_bool True))]), Inl PSEOF)"
  by code_simp

text \<open>
  C1, the claim as stated fails: on a plain \<open>PSStackParser\<close> the first \<open>nextobject\<close>
  raises \<open>PSEOF\<close>; it does not return the Dict.
\<close>

theorem nextobject_dict_example_counterexample:
  "map_option fst (nextobject False no_str flush do_keyword (PSStackParser_init ''<< /Key 1 /Flag true >>''))
     = Some (Inl PSEOF)"
  by code_simp

text \<open>
  C2. A hexadecimal string whose body \<open>h\<close> consists of hexadecimal digits
  and whitespace, with an odd number of digits: the token is the bytes spelled by the
  pairs of digits, followed by one byte whose value is the last digit. It is the token
  of any body \<open>h'\<close> with the same digits and a \<open>0\<close> inserted before the last one: the
  single trailing digit is decoded as if a \<open>0\<close> preceded it. The body may be longer
  than the buffer.
\<close>

theorem hexstring_odd_digit:
  assumes "list_all (\<lambda>c. SPC c \<or> HEX c) h" and "SPC_sub h = a @ [d]" and "even (length a)"
    and "list_all (\<lambda>c. SPC c \<or> HEX c) h'" and "SPC_sub h' = a @ [CHR ''0'', d]"
  shows "\<exists>bs. HEX_PAIR_sub a = Some bs
           \<and> fst (nexttoken (PSBaseParser_init (''<'' @ h @ ''>'' @ r)))
               = Inr (0, T_bytes (bs @ [char_of (digit_val d)]))
           \<and> fst (nexttoken (PSBaseParser_init (''<'' @ h' @ ''>'' @ r')))
               = Inr (0, T_bytes (bs @ [char_of (digit_val d)]))"
proof -
  have hx: "list_all HEX (SPC_sub x)" if "list_all (\<lambda>c. SPC c \<or> HEX c) x" for x
    using that by (auto simp: SPC_sub_def list_all_iff)
  from hx[OF assms(1)] assms(2) have a: "list_all HEX a" and d: "HEX d" by simp_all
  have ne: "x \<noteq> []" if "SPC_sub x = y" "y \<noteq> []" for x y
    using that by (auto simp: SPC_sub_def)
  have en: "list_all (\<lambda>c. \<not> END_HEX_STRING c) x" if "list_all (\<lambda>c. SPC c \<or> HEX c) x" for x
    using that by (simp add: END_HEX_STRING_def)
  have gt: "END_HEX_STRING CHR ''>''"
    by (simp add: END_HEX_STRING_def SPC_def HEX_def)
  from HEX_PAIR_sub_even[OF a assms(3), of "[]"] obtain bs where bs: "HEX_PAIR_sub a = Some bs"
    by auto
  have t1: "HEX_PAIR_sub (SPC_sub h) = Some (bs @ [char_of (digit_val d)])"
    using hex_odd_low_nibble(2)[OF a assms(3) d] bs assms(2) by simp
  have t2: "HEX_PAIR_sub (SPC_sub h') = Some (bs @ [char_of (digit_val d)])"
    using hex_odd_low_nibble[OF a assms(3) d] bs assms(5) by simp
  have n1: "h \<noteq> []" using ne[OF assms(2)] by simp
  have n2: "h' \<noteq> []" using ne[OF assms(5)] by simp
  from hexstring_nexttoken[OF n1 en[OF assms(1)] gt t1, of r]
    hexstring_nexttoken[OF n2 en[OF assms(4)] gt t2, of r'] bs
  show ?thesis by simp
qed

theorem hexstring_odd_digit_witness:
  "list_all (\<lambda>c. SPC c \<or> HEX c) ''ab c'' \<and> SPC_sub ''ab c'' = ''ab'' @ [CHR ''c'']
   \<and> even (length ''ab'')
   \<and> list_all (\<lambda>c. SPC c \<or> HEX c) ''ab0c'' \<and> SPC_sub ''ab0c'' = ''ab'' @ [CHR ''0'', CHR ''c'']
   \<and> fst (nexttoken (PSBaseParser_init (''<'' @ ''ab c'' @ ''>'' @ '' 1'')))
        = Inr (0, T_bytes [CHR 0xAB, CHR 0x0C])
   \<and> fst (nexttoken (PSBaseParser_init (''<'' @ ''ab0c'' @ ''>'' @ [])))
        = Inr (0, T_bytes [CHR 0xAB, CHR 0x0C])"
proof -
  have h1: "list_all (\<lambda>c. SPC c \<or> HEX c) ''ab c''" by code_simp
  have h2: "SPC_sub ''ab c'' = ''ab'' @ [CHR ''c'']" by code_simp
  have h3: "even (length ''ab'')" by simp
  have h4: "list_all (\<lambda>c. SPC c \<or> HEX c) ''ab0c''" by code_simp
  have h5: "SPC_sub ''ab0c'' = ''ab'' @ [CHR ''0'', CHR ''c'']" by code_simp
  have b: "HEX_PAIR_sub ''ab'' = Some [CHR 0xAB]" by code_simp
  have c: "char_of (digit_val CHR ''c'') = CHR 0x0C" by code_simp
  from hexstring_odd_digit[OF h1 h2 h3 h4 h5, of "'' 1''" "[]"] b c
  have "fst (nexttoken (PSBaseParser_init (''<'' @ ''ab c'' @ ''>'' @ '' 1'')))
          = Inr (0, T_bytes [CHR 0xAB, CHR 0x0C])
      \<and> fst (nexttoken (PSBaseParser_init (''<'' @ ''ab0c'' @ ''>'' @ [])))
          = Inr (0, T_bytes [CHR 0xAB, CHR 0x0C])"
    by auto
  with h1 h2 h3 h4 h5 show ?thesis by blast
qed

text \<open>
  C2, the claim as stated fails: \<open><1>\<close> is the byte 0x01 and \<open><10>\<close> is the byte 0x10.
\<close>

theorem hexstring_odd_digit_counterexample:
  "fst (nexttoken (PSBaseParser_init ''<1>'')) = Inr (0, T_bytes [CHR 0x01])
   \<and> fst (nexttoken (PSBaseParser_init ''<10>'')) = Inr (0, T_bytes [CHR 0x10])
   \<and> fst (nexttoken (PSBaseParser_init ''<1>'')) \<noteq> fst (nexttoken (PSBaseParser_init ''<10>''))"
  by code_simp

text \<open>
  C3. The decoded value of an octal escape is not always below 256: on the input
  \<open>(\777)\<close> the three octal digits are accumulated and decoded to 511, the assertion
  \<open>chrcode < 256\<close> fails and \<open>nexttoken\<close> raises \<open>AssertionError\<close>.
\<close>

theorem octal_escape_assertion_fails:
  "fst (nexttoken (PSBaseParser_init [CHR ''('', CHR 0x5C, CHR ''7'', CHR ''7'', CHR ''7'', CHR '')'']))
     = Inl AssertionError"
  by code_simp

text \<open>
  C4. When \<open>nextobject\<close> takes a \<open>>>\<close> token while the innermost builder is
  a dict builder with an odd number of collected items, it raises \<open>PSSyntaxError\<close>, for
  either value of \<open>strict\<close> and whatever the hooks are; the builder has been closed.
  The input \<open><< /K 1 /V >>\<close> raises \<open>PSSyntaxError\<close>.
\<close>

theorem dict_odd_length_SyntaxError:
  assumes "results p = []" and "nexttoken p = (Inr (pos, KEYWORD_DICT_END), p1)"
    and "curtype p = Some ''d''" and "context p = ctx @ [(pos0, ct, cs)]"
    and "odd (length (curstack p))"
  shows "nextobject strict py_str fl do_kw p
           = Some (Inl PSSyntaxError, p1\<lparr>context := ctx, curtype := ct, curstack := cs\<rparr>)
         \<and> map_option fst (nextobject strict py_str fl do_kw (PSStackParser_init ''<< /K 1 /V >>''))
           = Some (Inl PSSyntaxError)"
proof
  from nexttoken_stack[OF assms(2)] assms(3-5)
  have st: "curtype p1 = Some ''d''" "context p1 = ctx @ [(pos0, ct, cs)]" "odd (length (curstack p1))"
    by (simp_all add: stack_eq_def)
  have "dispatch strict py_str do_kw p1 pos KEYWORD_DICT_END
          = (Inl PSSyntaxError, p1\<lparr>context := ctx, curtype := ct, curstack := cs\<rparr>)"
    using st by (simp add: dispatch_DICT_END end_type_match odd_iff_mod_2_eq_one)
  then show "nextobject strict py_str fl do_kw p
           = Some (Inl PSSyntaxError, p1\<lparr>context := ctx, curtype := ct, curstack := cs\<rparr>)"
    by (simp add: nextobject_token[OF assms(1,2)])
next
  show "map_option fst (nextobject strict py_str fl do_kw (PSStackParser_init ''<< /K 1 /V >>''))
           = Some (Inl PSSyntaxError)"
    by code_simp
qed

theorem dict_odd_length_SyntaxError_witness:
  "results (in_builder ''>>'' (Some ''d'') [(3, Tok (PSLiteral (Str ''V'')))]) = []
   \<and> fst (nexttoken (in_builder ''>>'' (Some ''d'') [(3, Tok (PSLiteral (Str ''V'')))])) = Inr (0, KEYWORD_DICT_END)
   \<and> curtype (in_builder ''>>'' (Some ''d'') [(3, Tok (PSLiteral (Str ''V'')))]) = Some ''d''
   \<and> context (in_builder ''>>'' (Some ''d'') [(3, Tok (PSLiteral (Str ''V'')))]) = [] @ [(0, None, [])]
   \<and> odd (length (curstack (in_builder ''>>'' (Some ''d'') [(3, Tok (PSLiteral (Str ''V'')))])))
   \<and> map_option fst (nextobject False no_str flush do_keyword
        (in_builder ''>>'' (Some ''d'') [(3, Tok (PSLiteral (Str ''V'')))])) = Some (Inl PSSyntaxError)
   \<and> map_option fst (nextobject True no_str flush do_keyword
        (in_builder ''>>'' (Some ''d'') [(3, Tok (PSLiteral (Str ''V'')))])) = Some (Inl PSSyntaxError)"
proof -
  let ?p = "in_builder ''>>'' (Some ''d'') [(3, Tok (PSLiteral (Str ''V'')))]"
  have h1: "results ?p = []" by code_simp
  have h2: "nexttoken ?p = (Inr (0, KEYWORD_DICT_END), snd (nexttoken ?p))" by code_simp
  have h2': "fst (nexttoken ?p) = Inr (0, KEYWORD_DICT_END)" by code_simp
  have h3: "curtype ?p = Some ''d''" by code_simp
  have h4: "context ?p = [] @ [(0, None, [])]" by code_simp
  have h5: "odd (length (curstack ?p))" by code_simp
  note t = dict_odd_length_SyntaxError[OF h1 h2 h3 h4 h5]
  from t[of False no_str flush do_keyword]
  have r1: "map_option fst (nextobject False no_str flush do_keyword ?p) = Some (Inl PSSyntaxError)"
    by simp
  from t[of True no_str flush do_keyword]
  have r2: "map_option fst (nextobject True no_str flush do_keyword ?p) = Some (Inl PSSyntaxError)"
    by simp
  from h1 h2' h3 h4 h5 r1 r2 show ?thesis by blast
qed

text \<open>
  C5. The end-of-stream rule fails on the input \<open>(\777\<close> followed by the end of the
  stream: \<open>fillbuf\<close> fails (the buffer is empty afterwards), the handler
  \<open>_parse_string_1\<close> gets the byte \<open>\n\<close>, emits no token and fails its assertion;
  \<open>nexttoken\<close> raises \<open>AssertionError\<close>, not \<open>PSEOF\<close>, and \<open>eof\<close> is not set.
\<close>

theorem eof_flush_assertion_fails:
  "fst (nexttoken (PSBaseParser_init [CHR ''('', CHR 0x5C, CHR ''7'', CHR ''7'', CHR ''7'']))
     = Inl AssertionError
   \<and> buf (snd (nexttoken (PSBaseParser_init [CHR ''('', CHR 0x5C, CHR ''7'', CHR ''7'', CHR ''7''])))
     = []
   \<and> tokens (snd (nexttoken (PSBaseParser_init [CHR ''('', CHR 0x5C, CHR ''7'', CHR ''7'', CHR ''7''])))
     = []
   \<and> eof (snd (nexttoken (PSBaseParser_init [CHR ''('', CHR 0x5C, CHR ''7'', CHR ''7'', CHR ''7''])))
     = False"
  by code_simp

text \<open>
  C6. \<open>nextobject\<close> takes a \<open>]\<close> token; the tokenizer leaves the stack
  fields as they were. If the innermost builder is not an array builder, \<open>end_type\<close>
  raises \<open>PSTypeError\<close>: with \<open>strict\<close> the error leaves \<open>nextobject\<close>; without it the
  token is dropped, the state is the one after the token was read, and the loop goes
  on. If the builder is an array builder, it is closed and the list of its items is
  pushed on the enclosing builder with the position stored when the builder was opened,
  which is the position of its \<open>[\<close> token.
\<close>

theorem array_close:
  assumes "results p = []" and "nexttoken p = (Inr (pos, KEYWORD_ARRAY_END), p1)"
  shows "stack_eq p p1
     \<and> (curtype p \<noteq> Some ''a'' \<longrightarrow>
          dispatch True py_str do_kw p1 pos KEYWORD_ARRAY_END = (Inl PSTypeError, p1)
        \<and> nextobject True py_str fl do_kw p = Some (Inl PSTypeError, p1)
        \<and> dispatch False py_str do_kw p1 pos KEYWORD_ARRAY_END = (Inr (), p1)
        \<and> nextobject False py_str fl do_kw p
            = nextobject False py_str fl do_kw (if context p1 \<noteq> [] then p1 else fl p1))
     \<and> (curtype p = Some ''a'' \<and> context p = ctx @ [(pos0, ct, cs)] \<longrightarrow>
          dispatch strict py_str do_kw p1 pos KEYWORD_ARRAY_END
            = (Inr (), p1\<lparr>context := ctx, curtype := ct,
                          curstack := cs @ [(pos0, List (map snd (curstack p)))]\<rparr>))
     \<and> dispatch strict py_str do_kw (push (start_type q pos0 ''a'') items) pos KEYWORD_ARRAY_END
          = (Inr (), push q [(pos0, List (map snd items))])"
proof (intro conjI impI)
  show se: "stack_eq p p1" by (rule nexttoken_stack[OF assms(2)])
  {
    assume "curtype p \<noteq> Some ''a''"
    with se have ne: "curtype p1 \<noteq> Some ''a''" by (simp add: stack_eq_def)
    show t: "dispatch True py_str do_kw p1 pos KEYWORD_ARRAY_END = (Inl PSTypeError, p1)"
      by (simp add: dispatch_ARRAY_END end_type_mismatch[OF ne] except_PSTypeError_def)
    show f: "dispatch False py_str do_kw p1 pos KEYWORD_ARRAY_END = (Inr (), p1)"
      by (simp add: dispatch_ARRAY_END end_type_mismatch[OF ne] except_PSTypeError_def)
    show "nextobject True py_str fl do_kw p = Some (Inl PSTypeError, p1)"
      by (simp add: nextobject_token[OF assms] t)
    show "nextobject False py_str fl do_kw p
            = nextobject False py_str fl do_kw (if context p1 \<noteq> [] then p1 else fl p1)"
      by (simp add: nextobject_token[OF assms] f)
  }
  {
    assume "curtype p = Some ''a'' \<and> context p = ctx @ [(pos0, ct, cs)]"
    with se have m: "curtype p1 = Some ''a''" "context p1 = ctx @ [(pos0, ct, cs)]"
      "curstack p1 = curstack p"
      by (simp_all add: stack_eq_def)
    show "dispatch strict py_str do_kw p1 pos KEYWORD_ARRAY_END
            = (Inr (), p1\<lparr>context := ctx, curtype := ct,
                          curstack := cs @ [(pos0, List (map snd (curstack p)))]\<rparr>)"
      by (simp add: dispatch_ARRAY_END end_type_match[OF m(1,2)] push_def m(3))
  }
  show "dispatch strict py_str do_kw (push (start_type q pos0 ''a'') items) pos KEYWORD_ARRAY_END
          = (Inr (), push q [(pos0, List (map snd items))])"
    by (simp add: dispatch_ARRAY_END end_type_def push_def start_type_def)
qed

theorem array_close_witness:
  "results (in_builder '']'' (Some ''d'') [(3, Tok (T_int 1))]) = []
    \<and> fst (nexttoken (in_builder '']'' (Some ''d'') [(3, Tok (T_int 1))])) = Inr (0, KEYWORD_ARRAY_END)
    \<and> curtype (in_builder '']'' (Some ''d'') [(3, Tok (T_int 1))]) \<noteq> Some ''a''
    \<and> map_option fst (nextobject True no_str flush do_keyword (in_builder '']'' (Some ''d'') [(3, Tok (T_int 1))])) = Some (Inl PSTypeError)
    \<and> results (in_builder '']'' (Some ''a'') [(3, Tok (T_int 1))]) = []
    \<and> fst (nexttoken (in_builder '']'' (Some ''a'') [(3, Tok (T_int 1))])) = Inr (0, KEYWORD_ARRAY_END)
    \<and> curtype (in_builder '']'' (Some ''a'') [(3, Tok (T_int 1))]) = Some ''a'' \<and> context (in_builder '']'' (Some ''a'') [(3, Tok (T_int 1))]) = [] @ [(0, None, [])]
    \<and> curstack (snd (dispatch False no_str do_keyword (snd (nexttoken (in_builder '']'' (Some ''a'') [(3, Tok (T_int 1))]))) 0 KEYWORD_ARRAY_END))
         = [(0, List [Tok (T_int 1)])]"
proof -
  let ?d = "in_builder '']'' (Some ''d'') [(3, Tok (T_int 1))]" and ?a = "in_builder '']'' (Some ''a'') [(3, Tok (T_int 1))]"
  have d1: "results ?d = []" by code_simp
  have d2: "nexttoken ?d = (Inr (0, KEYWORD_ARRAY_END), snd (nexttoken ?d))" by code_simp
  have d2': "fst (nexttoken ?d) = Inr (0, KEYWORD_ARRAY_END)" by code_simp
  have d3: "curtype ?d \<noteq> Some ''a''" by code_simp
  have a1: "results ?a = []" by code_simp
  have a2: "nexttoken ?a = (Inr (0, KEYWORD_ARRAY_END), snd (nexttoken ?a))" by code_simp
  have a2': "fst (nexttoken ?a) = Inr (0, KEYWORD_ARRAY_END)" by code_simp
  have a3: "curtype ?a = Some ''a'' \<and> context ?a = [] @ [(0, None, [])]" by code_simp
  have a4: "curstack ?a = [(3, Tok (T_int 1))]" by code_simp
  from array_close[OF d1 d2, of no_str do_keyword flush] d3
  have r1: "nextobject True no_str flush do_keyword ?d = Some (Inl PSTypeError, snd (nexttoken ?d))"
    by blast
  from array_close[OF a1 a2, of no_str do_keyword flush "[]" 0 None "[]" False] a3
  have r2: "dispatch False no_str do_keyword (snd (nexttoken ?a)) 0 KEYWORD_ARRAY_END
            = (Inr (), (snd (nexttoken ?a))\<lparr>context := [], curtype := None,
                          curstack := [] @ [(0, List (map snd (curstack ?a)))]\<rparr>)"
    by blast
  show ?thesis
    unfolding r1 r2 by (simp add: d1 d2' d3 a1 a2' a3 a4)
qed

text \<open>
  C7. Interning a payload for which the table has an entry returns the object of that
  entry and changes neither the table nor the heap. Interning a payload again, after
  any sequence of further intern operations on the same table, returns the object
  returned the first time. In any sequence of intern operations, equal payloads get the
  identical object.
\<close>

theorem intern_identity:
  "(dict (fst th) n = Some r \<longrightarrow> intern th n = (r, th))
   \<and> intern (snd (interns (snd (intern th n)) ns)) n
     = (fst (intern th n), snd (interns (snd (intern th n)) ns))
   \<and> (\<forall>i j. i < length ns \<and> j < length ns \<and> ns ! i = ns ! j \<longrightarrow>
         fst (interns th ns) ! i = fst (interns th ns) ! j)"
proof (intro conjI)
  show "dict (fst th) n = Some r \<longrightarrow> intern th n = (r, th)"
    using intern_existing by blast
next
  from interns_keeps[of "snd (intern th n)" n "fst (intern th n)" ns] intern_entry[of th n]
  have "dict (fst (snd (interns (snd (intern th n)) ns))) n = Some (fst (intern th n))" by simp
  from intern_existing[OF this]
  show "intern (snd (interns (snd (intern th n)) ns)) n
     = (fst (intern th n), snd (interns (snd (intern th n)) ns))" .
next
  show "\<forall>i j. i < length ns \<and> j < length ns \<and> ns ! i = ns ! j \<longrightarrow>
         fst (interns th ns) ! i = fst (interns th ns) ! j"
  proof (intro allI impI)
    fix i j
    assume a: "i < length ns \<and> j < length ns \<and> ns ! i = ns ! j"
    from interns_final[of i ns th] interns_final[of j ns th] a
    show "fst (interns th ns) ! i = fst (interns th ns) ! j" by simp
  qed
qed

theorem intern_identity_witness:
  "dict (fst (snd (intern (PSSymbolTable_init PSLiteral, []) (Str ''A'')))) (Str ''A'') = Some 0
   \<and> fst (intern (snd (intern (PSSymbolTable_init PSLiteral, []) (Str ''A''))) (Str ''A'')) = 0
   \<and> (0::nat) < length [Str ''A'', Bytes ''B'', Str ''A'']
   \<and> (2::nat) < length [Str ''A'', Bytes ''B'', Str ''A'']
   \<and> [Str ''A'', Bytes ''B'', Str ''A''] ! 0 = [Str ''A'', Bytes ''B'', Str ''A''] ! 2
   \<and> fst (interns (PSSymbolTable_init PSLiteral, []) [Str ''A'', Bytes ''B'', Str ''A'']) ! 0
     = fst (interns (PSSymbolTable_init PSLiteral, []) [Str ''A'', Bytes ''B'', Str ''A'']) ! 2
   \<and> fst (interns (PSSymbolTable_init PSLiteral, []) [Str ''A'', Bytes ''B'', Str ''A'']) = [0, 1, 0]"
proof -
  let ?th = "(PSSymbolTable_init PSLiteral, [])"
  let ?th1 = "snd (intern ?th (Str ''A''))"
  let ?ns = "[Str ''A'', Bytes ''B'', Str ''A'']"
  have h0: "dict (fst ?th1) (Str ''A'') = Some 0"
    by (simp add: intern_def PSSymbolTable_init_def)
  have h: "(0::nat) < length ?ns \<and> (2::nat) < length ?ns \<and> ?ns ! 0 = ?ns ! 2" by simp
  from intern_identity[where th = ?th1 and n = "Str ''A''" and r = 0 and ns = "[]"] h0
  have r0: "fst (intern ?th1 (Str ''A'')) = 0" by simp
  from intern_identity[where th = ?th and n = "Str ''A''" and r = 0 and ns = ?ns] h
  have r1: "fst (interns ?th ?ns) ! 0 = fst (interns ?th ?ns) ! 2" by blast
  have r2: "fst (interns ?th ?ns) = [0, 1, 0]"
    by (simp add: intern_def PSSymbolTable_init_def)
  from h0 r0 h r1 r2 show ?thesis by blast
qed

text \<open>
  C8. \<open>tokenize\<close> is the sequence of (position, token) pairs that
  \<open>nexttoken\<close> returns until it raises, with the error that ends it. For a parser in
  any state, so also after any number of calls, \<open>seek(0)\<close> followed by tokenizing gives
  the tokens, positions and final error of a freshly constructed parser on the same
  stream; in particular tokenizing, seeking to 0 and tokenizing again gives the same
  sequence twice. The same holds for \<open>PSStackParser.seek\<close>, which leaves the parser
  equal to a fresh one repositioned, up to the attributes \<open>paren\<close>, \<open>hex\<close> and \<open>oct\<close>
  that no state reads before assigning.
\<close>

theorem seek_replays_tokens:
  fixes p :: PSBaseParser
  shows "fst (tokenize (seek p 0)) = fst (tokenize (PSBaseParser_init (fp_data p)))
   \<and> fst (snd (tokenize (seek p 0))) = fst (snd (tokenize (PSBaseParser_init (fp_data p))))
   \<and> fst (tokenize (seek (snd (snd (tokenize (PSBaseParser_init B)))) 0))
       = fst (tokenize (PSBaseParser_init B))
   \<and> fst (tokenize (PSStackParser_seek sp 0)) = fst (tokenize (PSStackParser_init (fp_data sp)))
   \<and> PSStackParser_seek sp pos
       = (PSStackParser_init (fp_data sp))\<lparr>fp_pos := pos, bufpos := pos,
            paren := paren sp, hex := hex sp, oct := oct sp\<rparr>"
proof (intro conjI)
  note a = sim_tokenize[OF sim_seek_init[of p]]
  from a show "fst (tokenize (seek p 0)) = fst (tokenize (PSBaseParser_init (fp_data p)))" by simp
  from a show "fst (snd (tokenize (seek p 0))) = fst (snd (tokenize (PSBaseParser_init (fp_data p))))"
    by simp
  let ?f = "snd (snd (tokenize (PSBaseParser_init B)))"
  have "fp_data ?f = B"
    by (simp add: tokenize_fp_data) (simp add: PSBaseParser_init_def seek_def)
  with sim_tokenize[OF sim_seek_init[of ?f]]
  show "fst (tokenize (seek ?f 0)) = fst (tokenize (PSBaseParser_init B))" by simp
  from sim_tokenize[OF sim_seek_init_stack[of sp]]
  show "fst (tokenize (PSStackParser_seek sp 0)) = fst (tokenize (PSStackParser_init (fp_data sp)))"
    by simp
  show "PSStackParser_seek sp pos
       = (PSStackParser_init (fp_data sp))\<lparr>fp_pos := pos, bufpos := pos,
            paren := paren sp, hex := hex sp, oct := oct sp\<rparr>"
    by (simp add: PSStackParser_init_def PSStackParser_seek_def reset_def seek_def)
qed

text \<open>
  C9. In the state \<open>_parse_main\<close>, when the next non-blank byte is \<open>>\<close>
  the handler consumes it, emits nothing, raises nothing and enters \<open>_parse_wclose\<close>.
  There, a next byte other than \<open>>\<close> (in the same buffer, in the next one, or the
  byte \<open>\n\<close> supplied at the end of the stream) is left unconsumed, nothing is
  emitted or raised, and the state is \<open>_parse_main\<close> again. For every input, no token
  of the whole token stream is the keyword \<open>>\<close>, from a fresh parser and after a
  \<open>seek\<close> to any position.
\<close>

theorem lone_gt_dropped:
  "(parse1 p = P_main \<and> search NONSPC s i = Some j \<and> byte_at s j = ''>'' \<longrightarrow>
       call_parse1 p s i
         = (Inr (j + 1), p\<lparr>curtokenpos := bufpos p + j, curtoken := [], parse1 := P_wclose\<rparr>))
   \<and> (parse1 q = P_wclose \<and> byte_at s' i' \<noteq> ''>'' \<longrightarrow>
       call_parse1 q s' i' = (Inr i', q\<lparr>parse1 := P_main\<rparr>))
   \<and> list_all (\<lambda>pt. snd pt \<noteq> PSKeyword ''>'') (fst (tokenize (PSBaseParser_init B)))
   \<and> list_all (\<lambda>pt. snd pt \<noteq> PSKeyword ''>'') (fst (tokenize (seek p0 pos)))"
proof (intro conjI impI)
  assume "parse1 p = P_main \<and> search NONSPC s i = Some j \<and> byte_at s j = ''>''"
  then show "call_parse1 p s i
         = (Inr (j + 1), p\<lparr>curtokenpos := bufpos p + j, curtoken := [], parse1 := P_wclose\<rparr>)"
    by (simp add: call_parse1_def ok_def parse_main_def bytes_isdigit_def bytes_isalpha_def
        isdigit_def isalpha_def)
next
  assume "parse1 q = P_wclose \<and> byte_at s' i' \<noteq> ''>''"
  then show "call_parse1 q s' i' = (Inr i', q\<lparr>parse1 := P_main\<rparr>)"
    by (simp add: call_parse1_def ok_def parse_wclose_def)
next
  show "list_all (\<lambda>pt. snd pt \<noteq> PSKeyword ''>'') (fst (tokenize (PSBaseParser_init B)))"
    by (rule tokenize_no_gt[OF init_no_gt])
next
  show "list_all (\<lambda>pt. snd pt \<noteq> PSKeyword ''>'') (fst (tokenize (seek p0 pos)))"
    by (rule tokenize_no_gt[OF seek_no_gt])
qed

theorem lone_gt_dropped_witness:
  "parse1 (PSBaseParser_init ''a > b'') = P_main \<and> search NONSPC ''a > b'' 1 = Some 2
   \<and> byte_at ''a > b'' 2 = ''>''
   \<and> call_parse1 (PSBaseParser_init ''a > b'') ''a > b'' 1
        = (Inr 3, (PSBaseParser_init ''a > b'')\<lparr>curtokenpos := 2, parse1 := P_wclose\<rparr>)
   \<and> parse1 ((PSBaseParser_init ''a > b'')\<lparr>parse1 := P_wclose\<rparr>) = P_wclose
   \<and> byte_at ''a > b'' 3 \<noteq> ''>''
   \<and> call_parse1 ((PSBaseParser_init ''a > b'')\<lparr>parse1 := P_wclose\<rparr>) ''a > b'' 3
        = (Inr 3, PSBaseParser_init ''a > b'')
   \<and> fst (tokenize (PSBaseParser_init ''a > b'')) = [(0, PSKeyword ''a''), (4, PSKeyword ''b'')]
   \<and> list_all (\<lambda>pt. snd pt \<noteq> PSKeyword ''>'') (fst (tokenize (PSBaseParser_init ''a > b'')))"
proof -
  let ?p = "PSBaseParser_init ''a > b''"
  let ?q = "?p\<lparr>parse1 := P_wclose\<rparr>"
  have h1: "parse1 ?p = P_main \<and> search NONSPC ''a > b'' 1 = Some 2 \<and> byte_at ''a > b'' 2 = ''>''"
    by code_simp
  have h2: "parse1 ?q = P_wclose \<and> byte_at ''a > b'' 3 \<noteq> ''>''"
    by code_simp
  note t = lone_gt_dropped[of ?p "''a > b''" 1 2 ?q "''a > b''" 3 "''a > b''"]
  from t h1 have r1: "call_parse1 ?p ''a > b'' 1
      = (Inr (2 + 1), ?p\<lparr>curtokenpos := bufpos ?p + 2, curtoken := [], parse1 := P_wclose\<rparr>)"
    by blast
  from t h2 have r2: "call_parse1 ?q ''a > b'' 3 = (Inr 3, ?q\<lparr>parse1 := P_main\<rparr>)"
    by blast
  from t have r3: "list_all (\<lambda>pt. snd pt \<noteq> PSKeyword ''>'') (fst (tokenize ?p))"
    by blast
  have e1: "?p\<lparr>curtokenpos := bufpos ?p + 2, curtoken := [], parse1 := P_wclose\<rparr>
      = ?p\<lparr>curtokenpos := 2, parse1 := P_wclose\<rparr>"
    by (simp add: PSBaseParser_init_def seek_def)
  have e2: "?q\<lparr>parse1 := P_main\<rparr> = ?p"
    by (simp add: PSBaseParser_init_def seek_def)
  have r4: "fst (tokenize ?p) = [(0, PSKeyword ''a''), (4, PSKeyword ''b'')]"
    by code_simp
  from h1 h2 r1[unfolded e1] r2[unfolded e2] r3 r4 show ?thesis by simp
qed

text \<open>
  C10. When a \<open>>>\<close> token closes a dict builder and the dispatch succeeds,
  the Dict pushed on the enclosing builder has distinct keys and maps every key to the
  value of the last pair, in item order, whose value is not \<open>None\<close> and whose key
  renders as that key under \<open>literal_name\<close>; a key all of whose pairs have the value
  \<open>None\<close> is absent.
\<close>

theorem dict_close_last_kept_value:
  assumes "curtype p = Some ''d''" and "context p = ctx @ [(pos0, ct, cs)]"
    and "dispatch strict py_str do_kw p pos KEYWORD_DICT_END = (Inr (), p')"
  shows "\<exists>d. p' = p\<lparr>context := ctx, curtype := ct, curstack := cs @ [(pos0, Dict d)]\<rparr>
           \<and> distinct (map fst d)
           \<and> (\<forall>n. map_of d n
                  = last_option (kept_values strict py_str n (choplist 2 (map snd (curstack p)))))"
proof -
  let ?objs = "map snd (curstack p)"
  let ?p1 = "p\<lparr>context := ctx, curtype := ct, curstack := cs\<rparr>"
  note et = end_type_match[OF assms(1,2)]
  show ?thesis
  proof (cases "dict_comprehension strict py_str (choplist 2 ?objs) []")
    case (Inl e)
    from dict_comprehension_error[OF Inl] assms(3) et Inl show ?thesis
      by (auto simp: dispatch_DICT_END except_PSTypeError_def split: if_splits)
  next
    case (Inr d)
    from assms(3) et Inr have p': "p' = push ?p1 [(pos0, Dict d)]"
      by (auto simp: dispatch_DICT_END split: if_splits)
    have "map_of d n = last_option (kept_values strict py_str n (choplist 2 ?objs))" for n
      using dict_comprehension_lookup[OF Inr, of n] by (simp split: option.splits)
    moreover have "distinct (map fst d)"
      using dict_comprehension_distinct[OF Inr] by simp
    ultimately show ?thesis using p' by (auto simp: push_def)
  qed
qed

theorem dict_close_last_kept_value_witness:
  "curtype (in_builder ''>>'' (Some ''d'')
      [(1, Tok (PSLiteral (Str ''K''))), (2, Tok (T_int 1)), (3, Tok (PSLiteral (Str ''J''))), (4, Tok (T_int 2)),
       (5, Tok (PSLiteral (Str ''K''))), (6, Tok (T_int 3)), (7, Tok (PSLiteral (Str ''K''))), (8, PyNone)]) = Some ''d''
   \<and> dispatch False no_str do_keyword (in_builder ''>>'' (Some ''d'')
      [(1, Tok (PSLiteral (Str ''K''))), (2, Tok (T_int 1)), (3, Tok (PSLiteral (Str ''J''))), (4, Tok (T_int 2)),
       (5, Tok (PSLiteral (Str ''K''))), (6, Tok (T_int 3)), (7, Tok (PSLiteral (Str ''K''))), (8, PyNone)]) 0 KEYWORD_DICT_END
     = (Inr (), (in_builder ''>>'' None [])\<lparr>context := [],
          curstack := [(0, Dict [(''K'', Tok (T_int 3)), (''J'', Tok (T_int 2))])]\<rparr>)
   \<and> last_option (kept_values False no_str ''K''
        (choplist 2 [Tok (PSLiteral (Str ''K'')), Tok (T_int 1), Tok (PSLiteral (Str ''J'')), Tok (T_int 2),
           Tok (PSLiteral (Str ''K'')), Tok (T_int 3), Tok (PSLiteral (Str ''K'')), PyNone])) = Some (Tok (T_int 3))"
proof -
  let ?items = "[(1, Tok (PSLiteral (Str ''K''))), (2, Tok (T_int 1)), (3, Tok (PSLiteral (Str ''J''))), (4, Tok (T_int 2)),
       (5, Tok (PSLiteral (Str ''K''))), (6, Tok (T_int 3)), (7, Tok (PSLiteral (Str ''K''))), (8, PyNone)]"
  let ?p = "in_builder ''>>'' (Some ''d'') ?items"
  let ?p' = "(in_builder ''>>'' None [])\<lparr>context := [],
          curstack := [(0, Dict [(''K'', Tok (T_int 3)), (''J'', Tok (T_int 2))])]\<rparr>"
  have h1: "curtype ?p = Some ''d''" by code_simp
  have h2: "context ?p = [] @ [(0, None, [])]" by code_simp
  have h3: "dispatch False no_str do_keyword ?p 0 KEYWORD_DICT_END = (Inr (), ?p')" by code_simp
  have cs: "curstack ?p = ?items" by code_simp
  from dict_close_last_kept_value[OF h1 h2 h3] obtain d where
    d: "?p' = ?p\<lparr>context := [], curtype := None, curstack := [] @ [(0, Dict d)]\<rparr>"
      "\<forall>n. map_of d n = last_option (kept_values False no_str n (choplist 2 (map snd (curstack ?p))))"
    by blast
  from d(1) have "curstack ?p' = curstack (?p\<lparr>context := [], curtype := None, curstack := [] @ [(0, Dict d)]\<rparr>)"
    by simp
  then have "d = [(''K'', Tok (T_int 3)), (''J'', Tok (T_int 2))]" by simp
  moreover from d(2)
  have "map_of d ''K'' = last_option (kept_values False no_str ''K'' (choplist 2 (map snd (curstack ?p))))"
    by blast
  moreover have "map snd (curstack ?p) = [Tok (PSLiteral (Str ''K'')), Tok (T_int 1), Tok (PSLiteral (Str ''J'')), Tok (T_int 2),
           Tok (PSLiteral (Str ''K'')), Tok (T_int 3), Tok (PSLiteral (Str ''K'')), PyNone]"
    by code_simp
  ultimately have "last_option (kept_values False no_str ''K''
        (choplist 2 [Tok (PSLiteral (Str ''K'')), Tok (T_int 1), Tok (PSLiteral (Str ''J'')), Tok (T_int 2),
           Tok (PSLiteral (Str ''K'')), Tok (T_int 3), Tok (PSLiteral (Str ''K'')), PyNone])) = Some (Tok (T_int 3))"
    by simp
  with h1 h3 show ?thesis by blast
qed

text \<open>
  C10, the claim as stated fails: for the items \<open>/K 1 /K None\<close> the last occurrence of
  the key in the item list has the value \<open>None\<close>, and the Dict maps the key to 1, the
  value of the earlier pair, which is not discarded.
\<close>

theorem dict_last_occurrence_counterexample:
  "curstack (snd (dispatch False no_str do_keyword (in_builder ''>>'' (Some ''d'')
      [(3, Tok (PSLiteral (Str ''K''))), (6, Tok (T_int 1)), (8, Tok (PSLiteral (Str ''K''))), (11, PyNone)]) 0 KEYWORD_DICT_END))
     = [(0, Dict [(''K'', Tok (T_int 1))])]
   \<and> last_option (occurrence_values False no_str ''K''
        (choplist 2 [Tok (PSLiteral (Str ''K'')), Tok (T_int 1), Tok (PSLiteral (Str ''K'')), PyNone])) = Some PyNone"
  by code_simp

end
